theory Spec2Isabelle
  imports Complex_Main "HOL-Library.Word"
begin

unbundle bit_operations_syntax

section \<open>Configuration (config.h)\<close>

type_synonym u8 = "8 word"
type_synonym u16 = "16 word"
type_synonym u32 = "32 word"

definition CCD_PIXEL_COUNT :: nat where
  "CCD_PIXEL_COUNT = 3694"

definition USB_FRAME_START :: u8 where
  "USB_FRAME_START = 0x11"

definition USB_PIXEL_START :: u8 where
  "USB_PIXEL_START = 0xA5"

definition USB_PIXEL_END :: u8 where
  "USB_PIXEL_END = 0x5A"

definition MAX_LOG_LINES :: nat where
  "MAX_LOG_LINES = 200"

datatype ConnectionMode = ConnectionMode_None | ConnectionMode_UDP | ConnectionMode_USB

section \<open>Application state (app_state.h)\<close>

text \<open>
  The console holds formatted lines. Only the frame-complete line carries its argument
  here; every other line is kept as its format string. The wall-clock prefix that
  \<open>log_message\<close> prepends is left out.
\<close>

datatype log_line = Log_frame_complete nat | Log_text string

text \<open>The function a \<open>std::thread\<close> object runs.\<close>

datatype thread_fn = usb_receiver_thread_fn | udp_receiver_thread_fn

text \<open>
  The fields of \<open>AppState\<close> that the connection module and \<open>freeze_frame\<close> touch.
  A \<open>float\<close> sample is a \<open>real\<close>: every value stored is converted from a 16-bit
  integer, which \<open>float\<close> represents exactly. \<open>serial_handle\<close> and \<open>udp_socket\<close>
  are \<open>None\<close> for \<open>INVALID_HANDLE_VALUE\<close> and \<open>INVALID_SOCKET\<close>;
  \<open>receiver_thread\<close> is \<open>None\<close> when the thread object is not joinable.
\<close>

record AppState =
  spectrum_data :: "real list"
  snapshot_data :: "real list"
  is_frozen :: bool
  connection_mode :: ConnectionMode
  receiver_running :: bool
  receiver_thread :: "thread_fn option"
  udp_socket :: "nat option"
  serial_handle :: "nat option"
  packets_received :: u32
  last_sequence :: u32
  packets_per_second :: real
  console_log :: "log_line list"

text \<open>The constructor \<open>AppState::AppState\<close> with the default member initialisers.\<close>

definition AppState_init :: AppState where
  "AppState_init =
     \<lparr> spectrum_data = replicate CCD_PIXEL_COUNT 0,
       snapshot_data = replicate CCD_PIXEL_COUNT 0,
       is_frozen = False,
       connection_mode = ConnectionMode_None,
       receiver_running = False,
       receiver_thread = None,
       udp_socket = None,
       serial_handle = None,
       packets_received = 0,
       last_sequence = 0,
       packets_per_second = 0,
       console_log = [] \<rparr>"

section \<open>Console (console.cpp)\<close>

text \<open>
  \<open>log_message\<close> appends the line to the deque and removes the oldest line once there
  are more than \<open>MAX_LOG_LINES\<close>.
\<close>

definition log_push :: "log_line list \<Rightarrow> log_line \<Rightarrow> log_line list" where
  "log_push lg msg = (let c = lg @ [msg] in if length c > MAX_LOG_LINES then tl c else c)"

definition log_message :: "log_line \<Rightarrow> AppState \<Rightarrow> AppState" where
  "log_message msg g = g\<lparr>console_log := log_push (console_log g) msg\<rparr>"

section \<open>USB serial receiver (connection.cpp)\<close>

text \<open>
  The locals of \<open>usb_receiver_thread\<close>. \<open>buffer\<close> is the live part
  \<open>buffer[0 .. buffer_pos)\<close> of the 16384-byte vector, so \<open>buffer_pos\<close> is its length;
  the bytes beyond \<open>buffer_pos\<close> are never read. Time points of the steady clock are
  counted in nanoseconds.
\<close>

record usb_locals =
  buffer :: "u8 list"
  pixel_index :: nat
  receiving_frame :: bool
  temp_pixels :: "real list"
  last_stats_time :: int
  packets_since_last :: u32
  pixels_this_frame :: u32

definition usb_buffer_size :: nat where
  "usb_buffer_size = 16384"

definition usb_locals_init :: "int \<Rightarrow> usb_locals" where
  "usb_locals_init now =
     \<lparr> buffer = [],
       pixel_index = 0,
       receiving_frame = False,
       temp_pixels = replicate CCD_PIXEL_COUNT 0,
       last_stats_time = now,
       packets_since_last = 0,
       pixels_this_frame = 0 \<rparr>"

text \<open>
  The thread function up to its loop: two console lines, then the locals with the clock
  value read for \<open>last_stats_time\<close>.
\<close>

definition usb_receiver_thread_begin :: "int \<Rightarrow> AppState \<Rightarrow> usb_locals \<times> AppState" where
  "usb_receiver_thread_begin now g =
     (usb_locals_init now,
      log_message (Log_text ''Protocol: 0x11=frame, 0xA5+data+0x5A=pixel'')
        (log_message (Log_text ''USB Serial receiver started on %s'') g))"

text \<open>\<open>uint16_t pixel_value = low_byte | (high_byte << 8)\<close> and its conversion to \<open>float\<close>.\<close>

definition pixel_value :: "u8 \<Rightarrow> u8 \<Rightarrow> u16" where
  "pixel_value low_byte high_byte = ucast low_byte OR push_bit 8 (ucast high_byte)"

definition float_of_u16 :: "u16 \<Rightarrow> real" where
  "float_of_u16 v = real (unat v)"

text \<open>
  An element store \<open>v[i] = x\<close> on a \<open>std::vector\<close>. An index outside the vector is
  undefined behaviour in the source; the model returns \<open>None\<close> there.
\<close>

definition store :: "'a list \<Rightarrow> nat \<Rightarrow> 'a \<Rightarrow> 'a list option" where
  "store xs i x = (if i < length xs then Some (xs[i := x]) else None)"

text \<open>
  The publish loop \<open>for (i = 0; i < n; i++) dst[i] = src[i]\<close>, run under
  \<open>data_mutex\<close>.
\<close>

definition copy_pixels :: "nat \<Rightarrow> real list \<Rightarrow> real list \<Rightarrow> real list option" where
  "copy_pixels n src dst =
     fold (\<lambda>i acc. case acc of None \<Rightarrow> None
                    | Some d \<Rightarrow> if i < length src then store d i (src ! i) else None)
          [0..<n] (Some dst)"

text \<open>
  The inner loop \<open>while (buffer_pos >= 4)\<close>: scan to the first pixel-start byte and shift
  the window there (\<open>dropWhile\<close>), leave when fewer than four bytes remain, otherwise
  consume a valid four-byte record or drop one leading byte.
\<close>

function process_pixels ::
  "u8 list \<Rightarrow> nat \<Rightarrow> real list \<Rightarrow> u32 \<Rightarrow> (u8 list \<times> nat \<times> real list \<times> u32) option" where
  "process_pixels buf pix temp ptf =
     (if 4 \<le> length buf then
        (let buf1 = dropWhile (\<lambda>b. b \<noteq> USB_PIXEL_START) buf in
         if length buf1 < 4 then Some (buf1, pix, temp, ptf)
         else if buf1 ! 0 = USB_PIXEL_START \<and> buf1 ! 3 = USB_PIXEL_END then
           (let v = pixel_value (buf1 ! 1) (buf1 ! 2) in
            if pix < CCD_PIXEL_COUNT then
              (case store temp pix (float_of_u16 v) of
                 None \<Rightarrow> None
               | Some temp' \<Rightarrow> process_pixels (drop 4 buf1) (pix + 1) temp' (ptf + 1))
            else process_pixels (drop 4 buf1) pix temp ptf)
         else process_pixels (drop 1 buf1) pix temp ptf)
      else Some (buf, pix, temp, ptf))"
  by pat_completeness auto
termination
proof (relation "measure (\<lambda>(buf, pix, temp, ptf). length buf)")
  show "wf (measure (\<lambda>(buf, pix, temp, ptf). length buf))"
    by simp
next
  fix buf :: "u8 list" and pix :: nat and temp :: "real list" and ptf :: u32 and buf1
  assume "buf1 = dropWhile (\<lambda>b. b \<noteq> USB_PIXEL_START) buf" and "\<not> length buf1 < 4"
  then have "4 \<le> length buf1" and "length buf1 \<le> length buf"
    by (simp_all add: length_dropWhile_le)
  then have four: "length (drop 4 buf1) < length buf" and one: "length (drop 1 buf1) < length buf"
    by simp_all
  {
    fix temp' :: "real list"
    show "((drop 4 buf1, pix + 1, temp', ptf + 1), buf, pix, temp, ptf)
            \<in> measure (\<lambda>(buf, pix, temp, ptf). length buf)"
      using four by simp
  }
  show "((drop 4 buf1, pix, temp, ptf), buf, pix, temp, ptf)
          \<in> measure (\<lambda>(buf, pix, temp, ptf). length buf)"
    using four by simp
  show "((drop 1 buf1, pix, temp, ptf), buf, pix, temp, ptf)
          \<in> measure (\<lambda>(buf, pix, temp, ptf). length buf)"
    using one by simp
qed

declare process_pixels.simps [simp del]

text \<open>
  The body of the outer loop from the buffer append to the end of the inner loop, for
  one byte read. The flag is \<open>True\<close> when the body left through \<open>continue\<close>, which
  skips the statistics block below it.
\<close>

definition usb_process_byte ::
  "u8 \<Rightarrow> usb_locals \<times> AppState \<Rightarrow> (bool \<times> usb_locals \<times> AppState) option" where
  "usb_process_byte byte s =
     (let (l, g) = s;
          l1 = (if length (buffer l) < usb_buffer_size
                then l\<lparr>buffer := buffer l @ [byte]\<rparr> else l)
      in if byte = USB_FRAME_START then
           (if receiving_frame l1 \<and> 0 < pixel_index l1 then
              (case copy_pixels (min (pixel_index l1) CCD_PIXEL_COUNT)
                      (temp_pixels l1) (spectrum_data g) of
                 None \<Rightarrow> None
               | Some sd \<Rightarrow>
                   Some (True,
                     l1\<lparr>packets_since_last := packets_since_last l1 + 1,
                        receiving_frame := True, pixel_index := 0,
                        pixels_this_frame := 0, buffer := []\<rparr>,
                     log_message (Log_frame_complete (pixel_index l1))
                       (g\<lparr>spectrum_data := sd,
                          packets_received := packets_received g + 1\<rparr>)))
            else
              Some (True,
                l1\<lparr>receiving_frame := True, pixel_index := 0,
                   pixels_this_frame := 0, buffer := []\<rparr>, g))
         else if \<not> receiving_frame l1 then Some (True, l1\<lparr>buffer := []\<rparr>, g)
         else
           (case process_pixels (buffer l1) (pixel_index l1) (temp_pixels l1)
                   (pixels_this_frame l1) of
              None \<Rightarrow> None
            | Some (buf, pix, temp, ptf) \<Rightarrow>
                Some (False,
                  l1\<lparr>buffer := buf, pixel_index := pix, temp_pixels := temp,
                     pixels_this_frame := ptf\<rparr>, g)))"

text \<open>
  The statistics block at the end of the loop body. \<open>elapsed\<close> is the difference of
  the two time points cast to milliseconds. The quotient is taken in the reals; the
  rounding of \<open>float\<close> arithmetic is not represented.
\<close>

definition elapsed_ms :: "int \<Rightarrow> int \<Rightarrow> int" where
  "elapsed_ms now since = (now - since) div 1000000"

definition usb_stats :: "int \<Rightarrow> usb_locals \<times> AppState \<Rightarrow> usb_locals \<times> AppState" where
  "usb_stats now s =
     (let (l, g) = s; elapsed = elapsed_ms now (last_stats_time l)
      in if 1000 \<le> elapsed then
           (l\<lparr>packets_since_last := 0, last_stats_time := now\<rparr>,
            g\<lparr>packets_per_second := real (unat (packets_since_last l)) * 1000 / real_of_int elapsed,
              last_sequence := pixels_this_frame l\<rparr>)
         else (l, g))"

text \<open>
  One iteration of \<open>while (g_app.receiver_running)\<close>. \<open>rd\<close> is the outcome of
  \<open>ReadFile\<close>: \<open>None\<close> when it failed or read nothing (the loop sleeps and continues),
  \<open>Some byte\<close> otherwise; \<open>now\<close> is what the steady clock returns in that iteration.
\<close>

definition usb_iteration ::
  "u8 option \<Rightarrow> int \<Rightarrow> usb_locals \<times> AppState \<Rightarrow> (usb_locals \<times> AppState) option" where
  "usb_iteration rd now s =
     (case rd of
        None \<Rightarrow> Some s
      | Some byte \<Rightarrow>
          (case usb_process_byte byte s of
             None \<Rightarrow> None
           | Some (continued, s') \<Rightarrow> Some (if continued then s' else usb_stats now s')))"

text \<open>The loop over a finite run of iterations, each with its read outcome and clock value.\<close>

fun usb_run ::
  "(u8 option \<times> int) list \<Rightarrow> usb_locals \<times> AppState \<Rightarrow> (usb_locals \<times> AppState) option" where
  "usb_run [] s = Some s"
| "usb_run ((rd, now) # evs) s =
     (case usb_iteration rd now s of None \<Rightarrow> None | Some s' \<Rightarrow> usb_run evs s')"

section \<open>UDP receiver (connection.cpp)\<close>

text \<open>
  \<open>UdpPacketHeader\<close> is packed, so its fields lie at byte offsets 0, 1, 5, 9 and 11 and
  its size is 13. The receiver reads it in place from the receive buffer on a
  little-endian machine.
\<close>

record UdpPacketHeader =
  start_byte :: u8
  sequence_num :: u32
  timestamp_us :: u32
  pixel_count :: u16
  checksum :: u16

definition udp_header_size :: nat where
  "udp_header_size = 13"

definition udp_buffer_size :: nat where
  "udp_buffer_size = udp_header_size + CCD_PIXEL_COUNT * 2 + 100"

definition le16 :: "u8 \<Rightarrow> u8 \<Rightarrow> u16" where
  "le16 b0 b1 = ucast b0 OR push_bit 8 (ucast b1)"

definition le32 :: "u8 \<Rightarrow> u8 \<Rightarrow> u8 \<Rightarrow> u8 \<Rightarrow> u32" where
  "le32 b0 b1 b2 b3 =
     ucast b0 OR push_bit 8 (ucast b1) OR push_bit 16 (ucast b2) OR push_bit 24 (ucast b3)"

text \<open>Reads of the receive buffer; outside the vector they are \<open>None\<close>.\<close>

definition udp_header :: "u8 list \<Rightarrow> UdpPacketHeader option" where
  "udp_header buf =
     (if udp_header_size \<le> length buf then
        Some \<lparr> start_byte = buf ! 0,
               sequence_num = le32 (buf ! 1) (buf ! 2) (buf ! 3) (buf ! 4),
               timestamp_us = le32 (buf ! 5) (buf ! 6) (buf ! 7) (buf ! 8),
               pixel_count = le16 (buf ! 9) (buf ! 10),
               checksum = le16 (buf ! 11) (buf ! 12) \<rparr>
      else None)"

definition udp_pixel :: "u8 list \<Rightarrow> nat \<Rightarrow> u16 option" where
  "udp_pixel buf i =
     (if udp_header_size + 2 * i + 1 < length buf then
        Some (le16 (buf ! (udp_header_size + 2 * i)) (buf ! (udp_header_size + 2 * i + 1)))
      else None)"

text \<open>
  The copy loop \<open>for (i = 0; i < header->pixel_count; ++i) spectrum_data[i] = pixels[i]\<close>,
  run under \<open>data_mutex\<close>.
\<close>

definition udp_copy_pixels :: "nat \<Rightarrow> u8 list \<Rightarrow> real list \<Rightarrow> real list option" where
  "udp_copy_pixels n buf dst =
     fold (\<lambda>i acc. case acc of None \<Rightarrow> None
                    | Some d \<Rightarrow>
                        (case udp_pixel buf i of None \<Rightarrow> None
                         | Some v \<Rightarrow> store d i (float_of_u16 v)))
          [0..<n] (Some dst)"

record udp_locals =
  udp_last_stats_time :: int
  udp_packets_since_last :: u32

definition udp_locals_init :: "int \<Rightarrow> udp_locals" where
  "udp_locals_init now = \<lparr> udp_last_stats_time = now, udp_packets_since_last = 0 \<rparr>"

definition udp_receiver_thread_begin :: "int \<Rightarrow> AppState \<Rightarrow> udp_locals \<times> AppState" where
  "udp_receiver_thread_begin now g =
     (udp_locals_init now, log_message (Log_text ''UDP receiver started on port %d'') g)"

text \<open>
  The datagram part of one loop iteration. \<open>bytes\<close> is what \<open>recvfrom\<close> returned and
  \<open>buf\<close> the receive buffer after the call.
\<close>

definition udp_process_datagram ::
  "int \<Rightarrow> u8 list \<Rightarrow> udp_locals \<times> AppState \<Rightarrow> (udp_locals \<times> AppState) option" where
  "udp_process_datagram bytes buf s =
     (let (l, g) = s
      in if 0 < bytes \<and> int udp_header_size \<le> bytes then
           (case udp_header buf of
              None \<Rightarrow> None
            | Some header \<Rightarrow>
                if start_byte header = 0xAA then
                  (if unat (pixel_count header) \<le> CCD_PIXEL_COUNT then
                     (case udp_copy_pixels (unat (pixel_count header)) buf (spectrum_data g) of
                        None \<Rightarrow> None
                      | Some sd \<Rightarrow>
                          Some (l\<lparr>udp_packets_since_last := udp_packets_since_last l + 1\<rparr>,
                                g\<lparr>spectrum_data := sd,
                                  packets_received := packets_received g + 1,
                                  last_sequence := sequence_num header\<rparr>))
                   else Some (l, g))
                else Some (l, g))
         else Some (l, g))"

definition udp_stats :: "int \<Rightarrow> udp_locals \<times> AppState \<Rightarrow> udp_locals \<times> AppState" where
  "udp_stats now s =
     (let (l, g) = s; elapsed = elapsed_ms now (udp_last_stats_time l)
      in if 1000 \<le> elapsed then
           (l\<lparr>udp_packets_since_last := 0, udp_last_stats_time := now\<rparr>,
            g\<lparr>packets_per_second :=
                real (unat (udp_packets_since_last l)) * 1000 / real_of_int elapsed\<rparr>)
         else (l, g))"

definition udp_iteration ::
  "int \<Rightarrow> u8 list \<Rightarrow> int \<Rightarrow> udp_locals \<times> AppState \<Rightarrow> (udp_locals \<times> AppState) option" where
  "udp_iteration bytes buf now s =
     (case udp_process_datagram bytes buf s of
        None \<Rightarrow> None
      | Some s' \<Rightarrow> Some (udp_stats now s'))"

fun udp_run ::
  "(int \<times> u8 list \<times> int) list \<Rightarrow> udp_locals \<times> AppState \<Rightarrow> (udp_locals \<times> AppState) option" where
  "udp_run [] s = Some s"
| "udp_run ((bytes, buf, now) # evs) s =
     (case udp_iteration bytes buf now s of None \<Rightarrow> None | Some s' \<Rightarrow> udp_run evs s')"

section \<open>Connection management (connection.cpp)\<close>

text \<open>
  \<open>created\<close> is what \<open>CreateFileA\<close> returned. The configuration of the opened port
  (\<open>SetCommState\<close>, \<open>SetCommTimeouts\<close>, \<open>PurgeComm\<close>) acts on the device only.
\<close>

definition open_serial_port :: "nat option \<Rightarrow> AppState \<Rightarrow> bool \<times> AppState" where
  "open_serial_port created g =
     (let g1 = g\<lparr>serial_handle := created\<rparr>
      in if serial_handle g1 = None
         then (False, log_message (Log_text ''ERROR: Failed to open %s'') g1)
         else (True, log_message (Log_text ''Opened %s @ %d baud'') g1))"

definition close_serial_port :: "AppState \<Rightarrow> AppState" where
  "close_serial_port g = (if serial_handle g \<noteq> None then g\<lparr>serial_handle := None\<rparr> else g)"

text \<open>
  \<open>g_app.receiver_thread = std::thread(f)\<close>: move assignment to a thread object that is
  still joinable calls \<open>std::terminate\<close>, which ends the process.
\<close>

datatype error = Std_terminate

definition assign_receiver_thread :: "thread_fn \<Rightarrow> AppState \<Rightarrow> error + AppState" where
  "assign_receiver_thread f g =
     (if receiver_thread g \<noteq> None then Inl Std_terminate
      else Inr (g\<lparr>receiver_thread := Some f\<rparr>))"

definition start_usb_receiver :: "nat option \<Rightarrow> AppState \<Rightarrow> error + bool \<times> AppState" where
  "start_usb_receiver created g =
     (case open_serial_port created g of
        (False, g1) \<Rightarrow> Inr (False, g1)
      | (True, g1) \<Rightarrow>
          (case assign_receiver_thread usb_receiver_thread_fn
                  (g1\<lparr>receiver_running := True, connection_mode := ConnectionMode_USB\<rparr>) of
             Inl e \<Rightarrow> Inl e
           | Inr g2 \<Rightarrow> Inr (True, g2)))"

text \<open>
  What the socket layer answers during \<open>start_udp_receiver\<close>: the return value of
  \<open>WSAStartup\<close>, the socket returned by \<open>socket\<close> (\<open>None\<close> for \<open>INVALID_SOCKET\<close>) and
  the return value of \<open>bind\<close>.
\<close>

record winsock_replies =
  wsa_startup :: int
  socket_created :: "nat option"
  bind_result :: int

definition SOCKET_ERROR :: int where
  "SOCKET_ERROR = -1"

definition start_udp_receiver :: "winsock_replies \<Rightarrow> AppState \<Rightarrow> error + bool \<times> AppState" where
  "start_udp_receiver env g =
     (if wsa_startup env \<noteq> 0 then
        Inr (False, log_message (Log_text ''ERROR: WSAStartup failed'') g)
      else
        (let g1 = g\<lparr>udp_socket := socket_created env\<rparr>
         in if udp_socket g1 = None then
              Inr (False, log_message (Log_text ''ERROR: Failed to create socket'') g1)
            else if bind_result env = SOCKET_ERROR then
              Inr (False, log_message (Log_text ''ERROR: Failed to bind to port %d'') g1)
            else
              (case assign_receiver_thread udp_receiver_thread_fn
                      (g1\<lparr>receiver_running := True, connection_mode := ConnectionMode_UDP\<rparr>) of
                 Inl e \<Rightarrow> Inl e
               | Inr g2 \<Rightarrow>
                   Inr (True, log_message (Log_text ''Listening for UDP on port %d'') g2))))"

text \<open>
  \<open>stop_receiver\<close>: clear the flag, join the thread if it is joinable, release the
  transport of the current mode, set the mode to \<open>None\<close>. The joined thread leaves its
  loop and logs its last line before \<open>join\<close> returns. What the receiver thread writes
  in its loop until then is the subject of \<open>usb_run\<close> and \<open>udp_run\<close>.
\<close>

definition thread_stopped_line :: "thread_fn \<Rightarrow> log_line" where
  "thread_stopped_line f =
     (case f of
        usb_receiver_thread_fn \<Rightarrow> Log_text ''USB Serial receiver stopped''
      | udp_receiver_thread_fn \<Rightarrow> Log_text ''UDP receiver stopped'')"

definition stop_receiver :: "AppState \<Rightarrow> AppState" where
  "stop_receiver g =
     (let g1 = g\<lparr>receiver_running := False\<rparr>;
          g2 = (case receiver_thread g1 of
                  None \<Rightarrow> g1
                | Some f \<Rightarrow> log_message (thread_stopped_line f) (g1\<lparr>receiver_thread := None\<rparr>));
          g3 = (if connection_mode g2 = ConnectionMode_UDP then
                  (if udp_socket g2 \<noteq> None then g2\<lparr>udp_socket := None\<rparr> else g2)
                else if connection_mode g2 = ConnectionMode_USB then close_serial_port g2
                else g2)
      in g3\<lparr>connection_mode := ConnectionMode_None\<rparr>)"

section \<open>Controls panel and snapshot (ui_panels.cpp)\<close>

text \<open>
  The connection block of \<open>draw_controls_panel\<close>. The connect buttons are drawn only
  while the mode is \<open>None\<close>, the disconnect button only otherwise; at most one button
  reports a click in a frame.
\<close>

datatype click = No_click | Click_usb_connect | Click_udp_connect | Click_disconnect

definition draw_controls_panel ::
  "click \<Rightarrow> nat option \<Rightarrow> winsock_replies \<Rightarrow> AppState \<Rightarrow> error + AppState" where
  "draw_controls_panel c created env g =
     (if connection_mode g = ConnectionMode_None then
        (case c of
           Click_usb_connect \<Rightarrow> map_sum id snd (start_usb_receiver created g)
         | Click_udp_connect \<Rightarrow> map_sum id snd (start_udp_receiver env g)
         | _ \<Rightarrow> Inr g)
      else
        (case c of
           Click_disconnect \<Rightarrow> Inr (stop_receiver g)
         | _ \<Rightarrow> Inr g))"

text \<open>
  \<open>freeze_frame\<close> copies the shared samples under \<open>data_mutex\<close>. Its call of
  \<open>detect_peaks\<close> writes \<open>detected_peaks\<close> only.
\<close>

definition freeze_frame :: "AppState \<Rightarrow> AppState" where
  "freeze_frame g =
     log_message (Log_text ''Frame frozen - %zu peaks detected'')
       (g\<lparr>snapshot_data := spectrum_data g, is_frozen := True\<rparr>)"

text \<open>
  The states the application can be in: the constructed state, and whatever the start and
  stop functions, the receiver loops, \<open>freeze_frame\<close> and a console line make of a
  reachable state.
\<close>

inductive reachable :: "AppState \<Rightarrow> bool" where
  reachable_init: "reachable AppState_init"
| reachable_start_usb:
    "reachable g \<Longrightarrow> start_usb_receiver created g = Inr (ok, g') \<Longrightarrow> reachable g'"
| reachable_start_udp:
    "reachable g \<Longrightarrow> start_udp_receiver env g = Inr (ok, g') \<Longrightarrow> reachable g'"
| reachable_stop: "reachable g \<Longrightarrow> reachable (stop_receiver g)"
| reachable_usb_iteration:
    "reachable g \<Longrightarrow> usb_iteration rd now (l, g) = Some (l', g') \<Longrightarrow> reachable g'"
| reachable_udp_iteration:
    "reachable g \<Longrightarrow> udp_iteration bytes buf now (ul, g) = Some (ul', g') \<Longrightarrow> reachable g'"
| reachable_freeze: "reachable g \<Longrightarrow> reachable (freeze_frame g)"
| reachable_log: "reachable g \<Longrightarrow> reachable (log_message msg g)"

section \<open>Wire format and the decoder's window\<close>

text \<open>
  The serial protocol named in the header of \<open>connection.cpp\<close>: a pixel travels as
  \<open>[0xA5][lowByte][highByte][0x5A]\<close>; its value is \<open>lowByte + 256 * highByte\<close>.
\<close>

definition pixel_record :: "u8 \<times> u8 \<Rightarrow> u8 list" where
  "pixel_record r = [USB_PIXEL_START, fst r, snd r, USB_PIXEL_END]"

definition frame_records :: "(u8 \<times> u8) list \<Rightarrow> u8 list" where
  "frame_records recs = concat (map pixel_record recs)"

definition sample_of :: "u8 \<times> u8 \<Rightarrow> real" where
  "sample_of r = real (unat (fst r) + 256 * unat (snd r))"

text \<open>
  What the decoder holds apart from the statistics: window, pixel index, frame flag,
  temporary pixels, pixel counter, shared samples, publication count and console.
\<close>

definition decoder_view ::
  "usb_locals \<times> AppState \<Rightarrow>
   u8 list \<times> nat \<times> bool \<times> real list \<times> u32 \<times> real list \<times> u32 \<times> log_line list" where
  "decoder_view s =
     (buffer (fst s), pixel_index (fst s), receiving_frame (fst s), temp_pixels (fst s),
      pixels_this_frame (fst s), spectrum_data (snd s), packets_received (snd s),
      console_log (snd s))"

text \<open>
  The window, pixel index, temporary pixels and pixel counter after a run of bytes, none
  of them the frame-start marker, has gone through the inner loop one byte at a time.
\<close>

fun window_feed ::
  "u8 list \<Rightarrow> u8 list \<times> nat \<times> real list \<times> u32 \<Rightarrow> (u8 list \<times> nat \<times> real list \<times> u32) option" where
  "window_feed [] w = Some w"
| "window_feed (b # bs) (buf, pix, temp, ptf) =
     (case process_pixels (buf @ [b]) pix temp ptf of
        None \<Rightarrow> None
      | Some w' \<Rightarrow> window_feed bs w')"

text \<open>
  The bounds the serial loop keeps: the pixel index is at most \<open>CCD_PIXEL_COUNT\<close>, and
  the temporary and the shared sample array have \<open>CCD_PIXEL_COUNT\<close> entries.
\<close>

definition usb_bounds :: "usb_locals \<times> AppState \<Rightarrow> bool" where
  "usb_bounds s \<longleftrightarrow>
     pixel_index (fst s) \<le> CCD_PIXEL_COUNT \<and>
     length (temp_pixels (fst s)) = CCD_PIXEL_COUNT \<and>
     length (spectrum_data (snd s)) = CCD_PIXEL_COUNT"

text \<open>A pixel record in which the byte at position \<open>i\<close> has been replaced by \<open>c\<close>.\<close>

definition corrupted_record :: "u8 \<times> u8 \<Rightarrow> nat \<Rightarrow> u8 \<Rightarrow> u8 list" where
  "corrupted_record r i c = (pixel_record r)[i := c]"

text \<open>
  What is left in the window once the four bytes of a record corrupted at its start byte
  (\<open>i = 0\<close>) or at its end byte have gone through the inner loop from an empty window.
\<close>

definition window_after_corrupted :: "u8 \<times> u8 \<Rightarrow> nat \<Rightarrow> u8 \<Rightarrow> u8 list" where
  "window_after_corrupted r i c =
     (if i = 0 then dropWhile (\<lambda>b. b \<noteq> USB_PIXEL_START) [fst r, snd r, USB_PIXEL_END]
      else [fst r, snd r, c])"

section \<open>The pixel value\<close>

lemma uint_pixel_value: "uint (pixel_value lo hi) = uint lo + 256 * uint hi"
proof -
  have lo8: "uint lo = take_bit 8 (uint lo)"
    using uint_bounded [of lo] by (simp add: take_bit_int_eq_self)
  have hi_bound: "uint hi < 256" "0 \<le> uint hi"
    using uint_bounded [of hi] by simp_all
  have lo16: "take_bit 16 (uint lo) = uint lo" and hi16: "take_bit 16 (uint hi) = uint hi"
    using uint_bounded [of lo] uint_bounded [of hi] by (simp_all add: take_bit_int_eq_self)
  have "uint (pixel_value lo hi) = uint lo OR take_bit 16 (push_bit 8 (uint hi))"
    by (simp add: pixel_value_def uint_or unsigned_push_bit_eq unsigned_ucast_eq lo16 hi16)
  also have "take_bit 16 (push_bit 8 (uint hi)) = push_bit 8 (uint hi)"
    using hi_bound by (simp add: take_bit_int_eq_self push_bit_eq_mult)
  also have "uint lo OR push_bit 8 (uint hi) = take_bit 8 (uint lo) OR push_bit 8 (uint hi)"
    using lo8 by simp
  also have "\<dots> = take_bit 8 (uint lo) + push_bit 8 (uint hi)"
    by (simp add: concat_bit_eq [symmetric] concat_bit_def)
  also have "\<dots> = uint lo + 256 * uint hi"
    using lo8 by (simp add: push_bit_eq_mult)
  finally show ?thesis .
qed

lemma unat_pixel_value: "unat (pixel_value lo hi) = unat lo + 256 * unat hi"
proof -
  have "int (unat (pixel_value lo hi)) = int (unat lo + 256 * unat hi)"
    using uint_pixel_value [of lo hi] by simp
  then show ?thesis by (simp only: int_int_eq)
qed

section \<open>The copy loop and the inner loop\<close>

lemma store_Some: "i < length xs \<Longrightarrow> store xs i x = Some (xs[i := x])"
  by (simp add: store_def)

lemma copy_pixels_Suc:
  "copy_pixels (Suc n) src dst =
     (case copy_pixels n src dst of None \<Rightarrow> None
      | Some d \<Rightarrow> if n < length src then store d n (src ! n) else None)"
  by (simp add: copy_pixels_def)

lemma take_Suc_append_drop:
  assumes "n < length src" and "n < length dst"
  shows "(take n src @ drop n dst)[n := src ! n] = take (Suc n) src @ drop (Suc n) dst"
proof -
  have "drop n dst = dst ! n # drop (Suc n) dst"
    using assms(2) by (simp add: Cons_nth_drop_Suc)
  then have "(take n src @ drop n dst)[n := src ! n] = take n src @ src ! n # drop (Suc n) dst"
    using assms(1) by (simp add: list_update_append)
  then show ?thesis
    using assms(1) by (simp add: take_Suc_conv_app_nth)
qed

lemma copy_pixels_take_drop:
  "n \<le> length src \<Longrightarrow> n \<le> length dst \<Longrightarrow>
   copy_pixels n src dst = Some (take n src @ drop n dst)"
proof (induction n)
  case 0
  show ?case by (simp add: copy_pixels_def)
next
  case (Suc n)
  then have "copy_pixels n src dst = Some (take n src @ drop n dst)"
    by simp
  moreover have "n < length (take n src @ drop n dst)"
    using Suc.prems by simp
  ultimately show ?case
    using Suc.prems by (simp add: copy_pixels_Suc store_Some take_Suc_append_drop)
qed

lemma process_pixels_short:
  "length buf < 4 \<Longrightarrow> process_pixels buf pix temp ptf = Some (buf, pix, temp, ptf)"
  by (subst process_pixels.simps) simp

lemma process_pixels_scan:
  assumes "4 \<le> length buf"
  shows "process_pixels buf pix temp ptf =
         process_pixels (dropWhile (\<lambda>b. b \<noteq> USB_PIXEL_START) buf) pix temp ptf"
proof (cases "length (dropWhile (\<lambda>b. b \<noteq> USB_PIXEL_START) buf) < 4")
  case True
  then show ?thesis
    using assms by (subst process_pixels.simps) (simp add: process_pixels_short)
next
  case False
  then show ?thesis
    using assms
    by (subst process_pixels.simps, subst (2) process_pixels.simps) (simp add: Let_def)
qed

lemma process_pixels_record:
  "process_pixels (USB_PIXEL_START # lo # hi # USB_PIXEL_END # rest) pix temp ptf =
     (if pix < CCD_PIXEL_COUNT then
        (case store temp pix (float_of_u16 (pixel_value lo hi)) of
           None \<Rightarrow> None
         | Some temp' \<Rightarrow> process_pixels rest (pix + 1) temp' (ptf + 1))
      else process_pixels rest pix temp ptf)"
  by (subst process_pixels.simps) (simp cong: option.case_cong)

lemma process_pixels_bad_end:
  "y \<noteq> USB_PIXEL_END \<Longrightarrow>
   process_pixels (USB_PIXEL_START # lo # hi # y # rest) pix temp ptf =
   process_pixels (lo # hi # y # rest) pix temp ptf"
  by (subst process_pixels.simps) simp

lemma process_pixels_four:
  "process_pixels [a, b, c, d] pix temp ptf =
     (if a = USB_PIXEL_START then
        (if d = USB_PIXEL_END then
           (if pix < CCD_PIXEL_COUNT then
              (case store temp pix (float_of_u16 (pixel_value b c)) of
                 None \<Rightarrow> None
               | Some temp' \<Rightarrow> Some ([], pix + 1, temp', ptf + 1))
            else Some ([], pix, temp, ptf))
         else Some ([b, c, d], pix, temp, ptf))
      else Some (dropWhile (\<lambda>x. x \<noteq> USB_PIXEL_START) [b, c, d], pix, temp, ptf))"
proof -
  have short: "length (dropWhile (\<lambda>x. x \<noteq> USB_PIXEL_START) [b, c, d]) < 4"
    using length_dropWhile_le [of "\<lambda>x. x \<noteq> USB_PIXEL_START" "[b, c, d]"] by simp
  show ?thesis
  proof (cases "a = USB_PIXEL_START")
    case True
    show ?thesis
    proof (cases "d = USB_PIXEL_END")
      case True
      with \<open>a = USB_PIXEL_START\<close> show ?thesis
        by (simp add: process_pixels_record process_pixels_short cong: option.case_cong)
    next
      case False
      with \<open>a = USB_PIXEL_START\<close> show ?thesis
        by (simp add: process_pixels_bad_end process_pixels_short)
    qed
  next
    case False
    have "process_pixels [a, b, c, d] pix temp ptf =
          process_pixels (dropWhile (\<lambda>x. x \<noteq> USB_PIXEL_START) [b, c, d]) pix temp ptf"
      using False by (simp add: process_pixels_scan)
    then show ?thesis
      using False short by (simp only: process_pixels_short if_False)
  qed
qed

section \<open>Single iterations of the serial loop\<close>

lemma decoder_view_usb_stats [simp]: "decoder_view (usb_stats now s) = decoder_view s"
  by (cases s) (simp add: usb_stats_def decoder_view_def Let_def)

lemma usb_iteration_data:
  assumes "decoder_view s = (buf, pix, True, temp, ptf, sd, pr, lg)"
    and "b \<noteq> USB_FRAME_START" and "length buf < usb_buffer_size"
    and "process_pixels (buf @ [b]) pix temp ptf = Some (buf', pix', temp', ptf')"
  shows "\<exists>s'. usb_iteration (Some b) now s = Some s' \<and>
              decoder_view s' = (buf', pix', True, temp', ptf', sd, pr, lg)"
proof -
  obtain l g where s: "s = (l, g)" by (cases s)
  have "usb_process_byte b s =
          Some (False, l\<lparr>buffer := buf', pixel_index := pix', temp_pixels := temp',
                         pixels_this_frame := ptf'\<rparr>, g)"
    using assms by (simp add: s usb_process_byte_def decoder_view_def)
  then show ?thesis
    using assms(1) by (simp add: usb_iteration_def) (simp add: s decoder_view_def)
qed

lemma usb_iteration_marker:
  assumes "decoder_view s = (buf, pix, r, temp, ptf, sd, pr, lg)"
    and "pix \<le> length temp" and "pix \<le> length sd" and "pix \<le> CCD_PIXEL_COUNT"
  shows "\<exists>s'. usb_iteration (Some USB_FRAME_START) now s = Some s' \<and>
              decoder_view s' =
                (if r \<and> 0 < pix
                 then ([], 0, True, temp, 0, take pix temp @ drop pix sd, pr + 1,
                       log_push lg (Log_frame_complete pix))
                 else ([], 0, True, temp, 0, sd, pr, lg))"
proof -
  obtain l g where s: "s = (l, g)" by (cases s)
  have "copy_pixels (min pix CCD_PIXEL_COUNT) temp sd = Some (take pix temp @ drop pix sd)"
    using assms(2-4) by (simp add: copy_pixels_take_drop min_absorb1)
  then show ?thesis
    using assms(1)
    by (simp add: s usb_iteration_def usb_process_byte_def decoder_view_def log_message_def
        log_push_def Let_def)
qed

lemma usb_run_append:
  "usb_run (evs1 @ evs2) s =
     (case usb_run evs1 s of None \<Rightarrow> None | Some s' \<Rightarrow> usb_run evs2 s')"
  by (induction evs1 arbitrary: s) (auto split: option.splits)

section \<open>Runs of data bytes\<close>

lemma process_pixels_length:
  "process_pixels buf pix temp ptf = Some (buf', pix', temp', ptf') \<Longrightarrow> length buf' < 4"
proof (induction buf pix temp ptf rule: process_pixels.induct)
  case (1 buf pix temp ptf)
  show ?case
  proof (cases "4 \<le> length buf")
    case False
    then show ?thesis
      using "1.prems" by (simp add: process_pixels_short)
  next
    case True
    define buf1 where "buf1 = dropWhile (\<lambda>b. b \<noteq> USB_PIXEL_START) buf"
    show ?thesis
      using "1.IH" [OF True buf1_def] "1.prems" True
      by (subst (asm) (3) process_pixels.simps)
        (auto simp: buf1_def Let_def split: if_splits option.splits)
  qed
qed

lemma window_feed_append:
  "window_feed (bs1 @ bs2) w =
     (case window_feed bs1 w of None \<Rightarrow> None | Some w' \<Rightarrow> window_feed bs2 w')"
  by (induction bs1 arbitrary: w) (auto split: option.splits)

lemma events_Cons:
  assumes "map fst evs = map Some (b # bs)"
  obtains now evs' where "evs = (Some b, now) # evs'" and "map fst evs' = map Some bs"
  using assms by (cases evs) auto

lemma usb_run_window:
  assumes "decoder_view s = (buf, pix, True, temp, ptf, sd, pr, lg)"
    and "length buf < 4"
    and "\<forall>b \<in> set bs. b \<noteq> USB_FRAME_START"
    and "map fst evs = map Some bs"
    and "window_feed bs (buf, pix, temp, ptf) = Some (buf', pix', temp', ptf')"
  shows "\<exists>s'. usb_run evs s = Some s' \<and>
              decoder_view s' = (buf', pix', True, temp', ptf', sd, pr, lg)"
  using assms
proof (induction bs arbitrary: s evs buf pix temp ptf)
  case Nil
  then show ?case by simp
next
  case (Cons b bs)
  obtain now evs' where evs: "evs = (Some b, now) # evs'" and evs': "map fst evs' = map Some bs"
    using Cons.prems(4) by (rule events_Cons)
  obtain buf1 pix1 temp1 ptf1
    where pp: "process_pixels (buf @ [b]) pix temp ptf = Some (buf1, pix1, temp1, ptf1)"
      and wf: "window_feed bs (buf1, pix1, temp1, ptf1) = Some (buf', pix', temp', ptf')"
    using Cons.prems(5) by (auto split: option.splits)
  have "length buf < usb_buffer_size"
    using Cons.prems(2) by (simp add: usb_buffer_size_def)
  then obtain s1 where it: "usb_iteration (Some b) now s = Some s1"
    and v1: "decoder_view s1 = (buf1, pix1, True, temp1, ptf1, sd, pr, lg)"
    using usb_iteration_data [OF Cons.prems(1) _ _ pp, of now] Cons.prems(3) by auto
  have "length buf1 < 4"
    using pp by (rule process_pixels_length)
  then obtain s' where "usb_run evs' s1 = Some s'"
    and "decoder_view s' = (buf', pix', True, temp', ptf', sd, pr, lg)"
    using Cons.IH [OF v1 _ _ evs' wf] Cons.prems(3) by auto
  then show ?case
    by (simp add: evs it)
qed

lemma marker_distinct [simp]:
  "USB_PIXEL_START \<noteq> USB_FRAME_START" "USB_PIXEL_END \<noteq> USB_FRAME_START"
  "USB_PIXEL_END \<noteq> USB_PIXEL_START"
  by (simp_all add: USB_PIXEL_START_def USB_FRAME_START_def USB_PIXEL_END_def)

lemma window_feed_record:
  assumes "length buf < 4" and "USB_PIXEL_START \<notin> set buf" and "length buf \<in> {0, 3}"
  shows "window_feed (pixel_record r) (buf, pix, temp, ptf) =
     (if pix < CCD_PIXEL_COUNT then
        (case store temp pix (sample_of r) of None \<Rightarrow> None
         | Some temp' \<Rightarrow> Some ([], pix + 1, temp', ptf + 1))
      else Some ([], pix, temp, ptf))"
proof -
  have first: "process_pixels (buf @ [USB_PIXEL_START]) pix temp ptf =
                 Some ([USB_PIXEL_START], pix, temp, ptf)"
  proof (cases "length buf = 0")
    case True
    then show ?thesis by (simp add: process_pixels_short)
  next
    case False
    then have "length buf = 3" using assms(3) by simp
    moreover have "dropWhile (\<lambda>b. b \<noteq> USB_PIXEL_START) (buf @ [USB_PIXEL_START]) = [USB_PIXEL_START]"
      using assms(2) by (simp add: dropWhile_append)
    ultimately show ?thesis
      by (simp add: process_pixels_scan process_pixels_short)
  qed
  show ?thesis
    by (simp add: pixel_record_def first process_pixels_short process_pixels_record
        sample_of_def float_of_u16_def unat_pixel_value split: option.splits)
qed

lemma stored_samples_step:
  assumes "pix < length temp" and that: "pix < n"
  shows "take (Suc pix) (temp[pix := v]) @ xs @ drop (min (Suc pix + k) n) (temp[pix := v]) =
         take pix temp @ (v # xs) @ drop (min (Suc pix + k) n) temp"
proof -
  have "take (Suc pix) (temp[pix := v]) = take pix temp @ [v]"
    using assms by (simp add: take_Suc_conv_app_nth)
  moreover have "drop (min (Suc pix + k) n) (temp[pix := v]) = drop (min (Suc pix + k) n) temp"
    using that by (simp add: drop_update_cancel)
  ultimately show ?thesis by simp
qed

lemma window_feed_records:
  assumes "length temp = CCD_PIXEL_COUNT" and "pix \<le> CCD_PIXEL_COUNT"
    and "USB_PIXEL_START \<notin> set buf" and "length buf \<in> {0, 3}"
  shows "\<exists>ptf'. window_feed (frame_records recs) (buf, pix, temp, ptf) =
           Some (if recs = [] then buf else [], min (pix + length recs) CCD_PIXEL_COUNT,
                 take pix temp @ map sample_of (take (CCD_PIXEL_COUNT - pix) recs)
                   @ drop (min (pix + length recs) CCD_PIXEL_COUNT) temp,
                 ptf')"
  using assms
proof (induction recs arbitrary: buf pix temp ptf)
  case Nil
  then show ?case by (simp add: frame_records_def min_absorb1)
next
  case (Cons r recs)
  have split: "frame_records (r # recs) = pixel_record r @ frame_records recs"
    by (simp add: frame_records_def)
  have short: "length buf < 4"
    using Cons.prems(4) by auto
  show ?case
  proof (cases "pix < CCD_PIXEL_COUNT")
    case True
    define temp1 where "temp1 = temp[pix := sample_of r]"
    have one: "window_feed (pixel_record r) (buf, pix, temp, ptf) = Some ([], Suc pix, temp1, ptf + 1)"
      using True Cons.prems(1)
      by (simp add: window_feed_record [OF short Cons.prems(3,4)] store_Some temp1_def)
    obtain ptf' where rest: "window_feed (frame_records recs) ([], Suc pix, temp1, ptf + 1) =
        Some (if recs = [] then [] else [], min (Suc pix + length recs) CCD_PIXEL_COUNT,
              take (Suc pix) temp1 @ map sample_of (take (CCD_PIXEL_COUNT - Suc pix) recs)
                @ drop (min (Suc pix + length recs) CCD_PIXEL_COUNT) temp1, ptf')"
      using Cons.IH [of temp1 "Suc pix" "[]" "ptf + 1"] True Cons.prems(1)
      by (auto simp: temp1_def)
    have "take (CCD_PIXEL_COUNT - pix) (r # recs) = r # take (CCD_PIXEL_COUNT - Suc pix) recs"
    proof -
      have "CCD_PIXEL_COUNT - pix = Suc (CCD_PIXEL_COUNT - Suc pix)"
        using True by simp
      then show ?thesis by (simp only: take_Suc_Cons)
    qed
    moreover have "take (Suc pix) temp1 @ map sample_of (take (CCD_PIXEL_COUNT - Suc pix) recs)
                @ drop (min (Suc pix + length recs) CCD_PIXEL_COUNT) temp1
          = take pix temp @ (sample_of r # map sample_of (take (CCD_PIXEL_COUNT - Suc pix) recs))
                @ drop (min (Suc pix + length recs) CCD_PIXEL_COUNT) temp"
      unfolding temp1_def using True Cons.prems(1) by (intro stored_samples_step) simp_all
    ultimately show ?thesis
      by (simp add: split window_feed_append one rest)
  next
    case False
    then have full: "pix = CCD_PIXEL_COUNT"
      using Cons.prems(2) by simp
    have one: "window_feed (pixel_record r) (buf, pix, temp, ptf) = Some ([], pix, temp, ptf)"
      using False by (simp add: window_feed_record [OF short Cons.prems(3,4)])
    obtain ptf' where rest: "window_feed (frame_records recs) ([], pix, temp, ptf) =
        Some (if recs = [] then [] else [], min (pix + length recs) CCD_PIXEL_COUNT,
              take pix temp @ map sample_of (take (CCD_PIXEL_COUNT - pix) recs)
                @ drop (min (pix + length recs) CCD_PIXEL_COUNT) temp, ptf')"
      using Cons.IH [of temp pix "[]" ptf] Cons.prems(1,2) by auto
    have "window_feed (frame_records (r # recs)) (buf, pix, temp, ptf) =
            Some ([], min (pix + length recs) CCD_PIXEL_COUNT,
              take pix temp @ map sample_of (take (CCD_PIXEL_COUNT - pix) recs)
                @ drop (min (pix + length recs) CCD_PIXEL_COUNT) temp, ptf')"
      by (simp add: split window_feed_append one rest)
    then show ?thesis
      using Cons.prems(1) by (simp add: full)
  qed
qed

section \<open>A frame between two markers\<close>

lemma events_snoc:
  assumes "map fst evs = map Some (bs @ [b])"
  obtains now evs' where "evs = evs' @ [(Some b, now)]" and "map fst evs' = map Some bs"
proof -
  from assms obtain evs1 evs2 where e: "evs = evs1 @ evs2" and e1: "map fst evs1 = map Some bs"
    and e2: "map fst evs2 = [Some b]"
    by (auto simp: map_eq_append_conv)
  from e2 obtain now where "evs2 = [(Some b, now)]"
    by (cases evs2) auto
  with e e1 that show thesis by blast
qed

lemma usb_frame_publish:
  assumes view: "decoder_view s = (buf, pix, True, temp, ptf, sd, pr, lg)"
    and "length buf < 4"
    and "\<forall>b \<in> set body. b \<noteq> USB_FRAME_START"
    and feed: "window_feed body (buf, pix, temp, ptf) = Some (buf', pix', temp', ptf')"
    and "0 < pix'" and "pix' \<le> CCD_PIXEL_COUNT"
    and "length temp' = CCD_PIXEL_COUNT" and "length sd = CCD_PIXEL_COUNT"
    and evs: "map fst evs = map Some (body @ [USB_FRAME_START])"
  shows "\<exists>s'. usb_run evs s = Some s' \<and>
              decoder_view s' =
                ([], 0, True, temp', 0, take pix' temp' @ drop pix' sd, pr + 1,
                 log_push lg (Log_frame_complete pix'))"
proof -
  obtain now evs' where split: "evs = evs' @ [(Some USB_FRAME_START, now)]"
    and evs': "map fst evs' = map Some body"
    using evs by (rule events_snoc)
  obtain s1 where run1: "usb_run evs' s = Some s1"
    and v1: "decoder_view s1 = (buf', pix', True, temp', ptf', sd, pr, lg)"
    using usb_run_window [OF view assms(2,3) evs' feed] by blast
  obtain s2 where "usb_iteration (Some USB_FRAME_START) now s1 = Some s2"
    and "decoder_view s2 = ([], 0, True, temp', 0, take pix' temp' @ drop pix' sd, pr + 1,
                 log_push lg (Log_frame_complete pix'))"
    using usb_iteration_marker [OF v1, of now] assms(5-8) by auto
  then show ?thesis
    by (simp add: split usb_run_append run1)
qed

lemma frame_records_no_marker:
  assumes "\<forall>r \<in> set recs. fst r \<noteq> USB_FRAME_START \<and> snd r \<noteq> USB_FRAME_START"
  shows "\<forall>b \<in> set (frame_records recs). b \<noteq> USB_FRAME_START"
  using assms by (auto simp: frame_records_def pixel_record_def)

lemma usb_frame_view:
  assumes view: "decoder_view s = (buf, 0, r, temp, ptf, sd, pr, lg)"
    and len: "length temp = CCD_PIXEL_COUNT" "length sd = CCD_PIXEL_COUNT"
    and "recs \<noteq> []"
    and payload: "\<forall>r \<in> set recs. fst r \<noteq> USB_FRAME_START \<and> snd r \<noteq> USB_FRAME_START"
    and evs: "map fst evs = map Some (USB_FRAME_START # frame_records recs @ [USB_FRAME_START])"
  shows "\<exists>s'. usb_run evs s = Some s' \<and>
              decoder_view s' =
                ([], 0, True,
                 map sample_of (take CCD_PIXEL_COUNT recs)
                   @ drop (min (length recs) CCD_PIXEL_COUNT) temp,
                 0,
                 map sample_of (take CCD_PIXEL_COUNT recs)
                   @ drop (min (length recs) CCD_PIXEL_COUNT) sd,
                 pr + 1,
                 log_push lg (Log_frame_complete (min (length recs) CCD_PIXEL_COUNT)))"
proof -
  define n where "n = min (length recs) CCD_PIXEL_COUNT"
  define temp' where "temp' = map sample_of (take CCD_PIXEL_COUNT recs) @ drop n temp"
  obtain now evs' where split: "evs = (Some USB_FRAME_START, now) # evs'"
    and evs': "map fst evs' = map Some (frame_records recs @ [USB_FRAME_START])"
    using evs by (rule events_Cons)
  obtain s1 where it: "usb_iteration (Some USB_FRAME_START) now s = Some s1"
    and v1: "decoder_view s1 = ([], 0, True, temp, 0, sd, pr, lg)"
    using usb_iteration_marker [OF view, of now] by auto
  obtain ptf' where feed: "window_feed (frame_records recs) ([], 0, temp, 0) =
      Some ([], n, temp', ptf')"
    using window_feed_records [of temp 0 "[]" recs 0] len(1) \<open>recs \<noteq> []\<close>
    by (auto simp: n_def temp'_def)
  have "0 < n"
    using \<open>recs \<noteq> []\<close> by (simp add: n_def CCD_PIXEL_COUNT_def)
  moreover have "n \<le> CCD_PIXEL_COUNT" and "length temp' = CCD_PIXEL_COUNT"
    using len(1) by (auto simp: n_def temp'_def)
  ultimately obtain s2 where run: "usb_run evs' s1 = Some s2"
    and v2: "decoder_view s2 =
      ([], 0, True, temp', 0, take n temp' @ drop n sd, pr + 1,
       log_push lg (Log_frame_complete n))"
    using usb_frame_publish [OF v1 _ frame_records_no_marker [OF payload] feed _ _ _ len(2) evs']
    by auto
  have "take n temp' = map sample_of (take CCD_PIXEL_COUNT recs)"
    by (simp add: temp'_def n_def)
  then show ?thesis
    using run v2 by (simp add: split it temp'_def n_def)
qed

section \<open>Claims on the serial decoder\<close>

lemma one_le_CCD_PIXEL_COUNT [simp]: "min (Suc 0) CCD_PIXEL_COUNT = Suc 0"
  by (simp add: CCD_PIXEL_COUNT_def)

lemmas usb_eval =
  usb_iteration_def usb_process_byte_def usb_stats_def elapsed_ms_def usb_buffer_size_def
  USB_FRAME_START_def USB_PIXEL_START_def USB_PIXEL_END_def process_pixels_short

text \<open>
  C1, as stated, fails. The claim: every byte sequence made of a frame-start marker, K
  complete pixel records and a second frame-start marker makes the decoder publish
  exactly one frame with min(K, CCD_PIXEL_COUNT) samples. The decoder tests every byte
  for the frame-start marker before it looks at the window, so a record whose low byte is
  0x11 (pixel value 17) ends the frame in the middle of the record: the sequence
  11 A5 11 00 5A 11 holds one complete record and publishes nothing. With no record at
  all (11 11) nothing is published either, since a frame is published only when its
  pixel index is positive.
\<close>

theorem usb_frame_payload_marker_counterexample:
  "map_option (packets_received \<circ> snd)
     (usb_run [(Some 0x11, 0), (Some 0xA5, 0), (Some 0x11, 0), (Some 0, 0), (Some 0x5A, 0),
               (Some 0x11, 0)] (usb_locals_init 0, AppState_init)) = Some 0 \<and>
   map_option (console_log \<circ> snd)
     (usb_run [(Some 0x11, 0), (Some 0xA5, 0), (Some 0x11, 0), (Some 0, 0), (Some 0x5A, 0),
               (Some 0x11, 0)] (usb_locals_init 0, AppState_init)) = Some [] \<and>
   map_option (packets_received \<circ> snd)
     (usb_run [(Some 0x11, 0), (Some 0x11, 0)] (usb_locals_init 0, AppState_init)) = Some 0 \<and>
   map_option (console_log \<circ> snd)
     (usb_run [(Some 0x11, 0), (Some 0x11, 0)] (usb_locals_init 0, AppState_init)) = Some []"
  by (simp add: usb_eval usb_locals_init_def AppState_init_def)

lemma usb_frame_start_state:
  assumes "usb_bounds (l, g)"
  shows "\<exists>l1 g1. usb_iteration (Some USB_FRAME_START) now (l, g) = Some (l1, g1) \<and>
           receiving_frame l1 \<and> buffer l1 = [] \<and> pixel_index l1 = 0 \<and>
           length (temp_pixels l1) = CCD_PIXEL_COUNT \<and>
           length (spectrum_data g1) = CCD_PIXEL_COUNT"
proof -
  have view: "decoder_view (l, g) =
          (buffer l, pixel_index l, receiving_frame l, temp_pixels l, pixels_this_frame l,
           spectrum_data g, packets_received g, console_log g)"
    by (simp add: decoder_view_def)
  have b: "pixel_index l \<le> length (temp_pixels l)" "pixel_index l \<le> length (spectrum_data g)"
    "pixel_index l \<le> CCD_PIXEL_COUNT" "length (temp_pixels l) = CCD_PIXEL_COUNT"
    "length (spectrum_data g) = CCD_PIXEL_COUNT"
    using assms by (simp_all add: usb_bounds_def)
  obtain s1 where it: "usb_iteration (Some USB_FRAME_START) now (l, g) = Some s1"
    and v1: "decoder_view s1 =
       (if receiving_frame l \<and> 0 < pixel_index l
        then ([], 0, True, temp_pixels l, 0,
              take (pixel_index l) (temp_pixels l) @ drop (pixel_index l) (spectrum_data g),
              packets_received g + 1,
              log_push (console_log g) (Log_frame_complete (pixel_index l)))
        else ([], 0, True, temp_pixels l, 0, spectrum_data g, packets_received g,
              console_log g))"
    using usb_iteration_marker [OF view b(1-3), of now] by blast
  show ?thesis
    using it v1 b by (cases s1) (auto simp: decoder_view_def split: if_splits)
qed

text \<open>
  C1, amended. From any state within the bounds of the sample arrays, let the loop read a
  frame-start marker and then, with any clock values, K \<ge> 1 pixel records none of whose
  low or high bytes is 0x11, followed by a second frame-start marker. Then the run
  completes and, after the first marker, publishes exactly one frame: the publication
  count grows by one, one line "Frame complete" with min(K, CCD_PIXEL_COUNT) pixels is
  logged, the first min(K, CCD_PIXEL_COUNT) shared samples are the values
  low + 256 * high of the records in order, the remaining shared samples keep their
  values, and a new frame with pixel index 0 and an empty window has begun.
\<close>

theorem usb_frame_sample_count:
  assumes "usb_bounds (l, g)"
    and "recs \<noteq> []"
    and "\<forall>r \<in> set recs. fst r \<noteq> USB_FRAME_START \<and> snd r \<noteq> USB_FRAME_START"
    and "map fst evs = map Some (frame_records recs @ [USB_FRAME_START])"
  shows "\<exists>l1 g1 l' g'.
           usb_iteration (Some USB_FRAME_START) now (l, g) = Some (l1, g1) \<and>
           usb_run evs (l1, g1) = Some (l', g') \<and>
           packets_received g' = packets_received g1 + 1 \<and>
           console_log g' =
             log_push (console_log g1) (Log_frame_complete (min (length recs) CCD_PIXEL_COUNT)) \<and>
           spectrum_data g' =
             map sample_of (take CCD_PIXEL_COUNT recs)
               @ drop (min (length recs) CCD_PIXEL_COUNT) (spectrum_data g1) \<and>
           receiving_frame l' \<and> pixel_index l' = 0 \<and> buffer l' = []"
proof -
  define n where "n = min (length recs) CCD_PIXEL_COUNT"
  obtain l1 g1 where first: "usb_iteration (Some USB_FRAME_START) now (l, g) = Some (l1, g1)"
    and st: "receiving_frame l1" "buffer l1 = []" "pixel_index l1 = 0"
    and len: "length (temp_pixels l1) = CCD_PIXEL_COUNT"
      "length (spectrum_data g1) = CCD_PIXEL_COUNT"
    using usb_frame_start_state [OF assms(1), of now] by blast
  define temp' where "temp' = map sample_of (take CCD_PIXEL_COUNT recs) @ drop n (temp_pixels l1)"
  have view: "decoder_view (l1, g1) =
          ([], 0, True, temp_pixels l1, pixels_this_frame l1,
           spectrum_data g1, packets_received g1, console_log g1)"
    using st by (simp add: decoder_view_def)
  obtain ptf' where feed:
    "window_feed (frame_records recs) ([], 0, temp_pixels l1, pixels_this_frame l1) =
       Some ([], n, temp', ptf')"
    using window_feed_records [of "temp_pixels l1" 0 "[]" recs "pixels_this_frame l1"] len(1)
      \<open>recs \<noteq> []\<close>
    by (auto simp: n_def temp'_def)
  have "0 < n"
    using \<open>recs \<noteq> []\<close> by (simp add: n_def CCD_PIXEL_COUNT_def)
  moreover have "n \<le> CCD_PIXEL_COUNT" and "length temp' = CCD_PIXEL_COUNT"
    using len(1) by (auto simp: n_def temp'_def)
  ultimately obtain s' where run: "usb_run evs (l1, g1) = Some s'"
    and v: "decoder_view s' =
      ([], 0, True, temp', 0, take n temp' @ drop n (spectrum_data g1), packets_received g1 + 1,
       log_push (console_log g1) (Log_frame_complete n))"
    using usb_frame_publish [OF view _ frame_records_no_marker [OF assms(3)] feed _ _ _ len(2)
        assms(4)]
    by auto
  have "take n temp' = map sample_of (take CCD_PIXEL_COUNT recs)"
    by (simp add: temp'_def n_def)
  then show ?thesis
    using first run v unfolding n_def by (cases s') (simp add: decoder_view_def)
qed

theorem usb_frame_sample_count_witness:
  "\<exists>l' g'. usb_run [(Some 0xA5, 0), (Some 7, 0), (Some 1, 0), (Some 0x5A, 0), (Some 0x11, 0)]
              ((usb_locals_init 0)\<lparr>receiving_frame := True\<rparr>, AppState_init) = Some (l', g') \<and>
      packets_received g' = 1 \<and> console_log g' = [Log_frame_complete 1] \<and>
      spectrum_data g' = 263 # drop 1 (replicate CCD_PIXEL_COUNT 0)"
proof -
  let ?evs = "[(Some 0xA5, 0), (Some 7, 0), (Some 1, 0), (Some 0x5A, 0), (Some 0x11, 0)]
                :: (u8 option \<times> int) list"
  have first: "usb_iteration (Some USB_FRAME_START) 0 (usb_locals_init 0, AppState_init) =
      Some ((usb_locals_init 0)\<lparr>receiving_frame := True\<rparr>, AppState_init)"
    by (simp add: usb_eval usb_locals_init_def)
  have "usb_bounds (usb_locals_init 0, AppState_init)"
    and "[(7, 1)] \<noteq> ([] :: (u8 \<times> u8) list)"
    and "\<forall>r \<in> set [(7 :: u8, 1 :: u8)]. fst r \<noteq> USB_FRAME_START \<and> snd r \<noteq> USB_FRAME_START"
    and "map fst ?evs = map Some (frame_records [(7, 1)] @ [USB_FRAME_START])"
    by (simp_all add: usb_bounds_def usb_locals_init_def AppState_init_def frame_records_def
        pixel_record_def USB_FRAME_START_def USB_PIXEL_START_def USB_PIXEL_END_def)
  from usb_frame_sample_count [OF this, of 0]
  obtain l' g' where "usb_run ?evs ((usb_locals_init 0)\<lparr>receiving_frame := True\<rparr>, AppState_init)
        = Some (l', g')"
    and "packets_received g' = packets_received AppState_init + 1"
    and "console_log g' = log_push (console_log AppState_init)
           (Log_frame_complete (min (length [(7 :: u8, 1 :: u8)]) CCD_PIXEL_COUNT))"
    and "spectrum_data g' = map sample_of (take CCD_PIXEL_COUNT [(7, 1)])
           @ drop (min (length [(7 :: u8, 1 :: u8)]) CCD_PIXEL_COUNT) (spectrum_data AppState_init)"
    unfolding first by auto
  moreover have "take CCD_PIXEL_COUNT [(7 :: u8, 1 :: u8)] = [(7, 1)]"
    by (simp add: CCD_PIXEL_COUNT_def)
  ultimately show ?thesis
    by (auto simp: AppState_init_def sample_of_def log_push_def MAX_LOG_LINES_def
        simp del: usb_run.simps)
qed

text \<open>
  C2. Start the serial receiver on the constructed application state (the port opens),
  let the thread enter its loop, and let the loop read the bytes
  11 A5 01 00 5A A5 02 00 5A 11 with any clock values. The run gives exactly one
  publication: the publication count goes from 0 to 1, the console shows, after the three
  lines of the start, the single line "Frame complete" with 2 pixels, the shared samples
  at indices 0 and 1 are 1 and 2, all samples from index 2 on are those of the initial
  state (zero), and after the trailing marker a new frame is in progress with pixel index
  0 and an empty window.
\<close>

theorem usb_scenario_two_pixels:
  "\<exists>g0 l' g'.
     start_usb_receiver (Some h) AppState_init = Inr (True, g0) \<and>
     spectrum_data g0 = spectrum_data AppState_init \<and> packets_received g0 = 0 \<and>
     usb_run [(Some 0x11, t0), (Some 0xA5, t1), (Some 0x01, t2), (Some 0x00, t3),
              (Some 0x5A, t4), (Some 0xA5, t5), (Some 0x02, t6), (Some 0x00, t7),
              (Some 0x5A, t8), (Some 0x11, t9)] (usb_receiver_thread_begin t g0)
       = Some (l', g') \<and>
     packets_received g' = 1 \<and>
     console_log g' =
       [Log_text ''Opened %s @ %d baud'', Log_text ''USB Serial receiver started on %s'',
        Log_text ''Protocol: 0x11=frame, 0xA5+data+0x5A=pixel'', Log_frame_complete 2] \<and>
     length (spectrum_data g') = CCD_PIXEL_COUNT \<and>
     spectrum_data g' ! 0 = 1 \<and> spectrum_data g' ! 1 = 2 \<and>
     drop 2 (spectrum_data g') = drop 2 (spectrum_data AppState_init) \<and>
     drop 2 (spectrum_data g') = replicate (CCD_PIXEL_COUNT - 2) 0 \<and>
     receiving_frame l' \<and> pixel_index l' = 0 \<and> buffer l' = []"
proof -
  let ?evs = "[(Some 0x11, t0), (Some 0xA5, t1), (Some 0x01, t2), (Some 0x00, t3),
               (Some 0x5A, t4), (Some 0xA5, t5), (Some 0x02, t6), (Some 0x00, t7),
               (Some 0x5A, t8), (Some 0x11, t9)] :: (u8 option \<times> int) list"
  let ?recs = "[(1, 0), (2, 0)] :: (u8 \<times> u8) list"
  let ?lg = "[Log_text ''Opened %s @ %d baud'', Log_text ''USB Serial receiver started on %s'',
        Log_text ''Protocol: 0x11=frame, 0xA5+data+0x5A=pixel'']"
  obtain g0 where start: "start_usb_receiver (Some h) AppState_init = Inr (True, g0)"
    and g0: "spectrum_data g0 = replicate CCD_PIXEL_COUNT 0" "packets_received g0 = 0"
      "console_log g0 = [Log_text ''Opened %s @ %d baud'']"
    by (simp add: start_usb_receiver_def open_serial_port_def assign_receiver_thread_def
        AppState_init_def log_message_def log_push_def MAX_LOG_LINES_def)
  have view0: "decoder_view (usb_receiver_thread_begin t g0) =
     ([], 0, False, replicate CCD_PIXEL_COUNT 0, 0, replicate CCD_PIXEL_COUNT 0, 0, ?lg)"
    using g0
    by (simp add: decoder_view_def usb_receiver_thread_begin_def usb_locals_init_def
        log_message_def log_push_def MAX_LOG_LINES_def)
  have len: "length (replicate CCD_PIXEL_COUNT (0 :: real)) = CCD_PIXEL_COUNT"
    by simp
  have evs: "map fst ?evs = map Some (USB_FRAME_START # frame_records ?recs @ [USB_FRAME_START])"
    by (simp add: frame_records_def pixel_record_def USB_FRAME_START_def USB_PIXEL_START_def
        USB_PIXEL_END_def)
  have payload: "\<forall>r \<in> set ?recs. fst r \<noteq> USB_FRAME_START \<and> snd r \<noteq> USB_FRAME_START"
    by (simp add: USB_FRAME_START_def)
  have count: "min (length ?recs) CCD_PIXEL_COUNT = 2" and tk: "take CCD_PIXEL_COUNT ?recs = ?recs"
    by (simp_all add: CCD_PIXEL_COUNT_def)
  obtain s' where run: "usb_run ?evs (usb_receiver_thread_begin t g0) = Some s'"
    and view: "decoder_view s' =
      ([], 0, True, map sample_of ?recs @ drop 2 (replicate CCD_PIXEL_COUNT 0), 0,
       map sample_of ?recs @ drop 2 (replicate CCD_PIXEL_COUNT 0), 0 + 1,
       log_push ?lg (Log_frame_complete 2))"
    using usb_frame_view [OF view0 len len _ payload evs]
    unfolding count tk by blast
  have "map sample_of ?recs = [1, 2]"
    by (simp add: sample_of_def)
  moreover have "2 \<le> CCD_PIXEL_COUNT"
    by (simp add: CCD_PIXEL_COUNT_def)
  ultimately have "\<exists>l' g'. usb_run ?evs (usb_receiver_thread_begin t g0) = Some (l', g') \<and>
     packets_received g' = 1 \<and>
     console_log g' = ?lg @ [Log_frame_complete 2] \<and>
     length (spectrum_data g') = CCD_PIXEL_COUNT \<and>
     spectrum_data g' ! 0 = 1 \<and> spectrum_data g' ! 1 = 2 \<and>
     drop 2 (spectrum_data g') = drop 2 (spectrum_data AppState_init) \<and>
     drop 2 (spectrum_data g') = replicate (CCD_PIXEL_COUNT - 2) 0 \<and>
     receiving_frame l' \<and> pixel_index l' = 0 \<and> buffer l' = []"
    using run view
    by (cases s') (simp add: decoder_view_def log_push_def MAX_LOG_LINES_def AppState_init_def
        del: usb_run.simps)
  then show ?thesis
    using start g0 by (auto simp: AppState_init_def simp del: usb_run.simps)
qed

section \<open>Bounds of the sample arrays\<close>

lemma process_pixels_bounds:
  assumes "pix \<le> CCD_PIXEL_COUNT" and "length temp = CCD_PIXEL_COUNT"
  shows "\<exists>buf' pix' temp' ptf'. process_pixels buf pix temp ptf = Some (buf', pix', temp', ptf') \<and>
           pix' \<le> CCD_PIXEL_COUNT \<and> length temp' = CCD_PIXEL_COUNT"
  using assms
proof (induction buf pix temp ptf rule: process_pixels.induct)
  case (1 buf pix temp ptf)
  show ?case
  proof (cases "4 \<le> length buf")
    case False
    then show ?thesis
      using "1.prems" by (simp add: process_pixels_short)
  next
    case True
    define buf1 where "buf1 = dropWhile (\<lambda>b. b \<noteq> USB_PIXEL_START) buf"
    let ?v = "pixel_value (buf1 ! 1) (buf1 ! 2)"
    note IH = "1.IH" [OF True buf1_def]
    consider (short) "length buf1 < 4"
      | (rec_store) "\<not> length buf1 < 4" "buf1 ! 0 = USB_PIXEL_START \<and> buf1 ! 3 = USB_PIXEL_END"
          "pix < CCD_PIXEL_COUNT"
      | (rec_full) "\<not> length buf1 < 4" "buf1 ! 0 = USB_PIXEL_START \<and> buf1 ! 3 = USB_PIXEL_END"
          "\<not> pix < CCD_PIXEL_COUNT"
      | (bad) "\<not> length buf1 < 4" "\<not> (buf1 ! 0 = USB_PIXEL_START \<and> buf1 ! 3 = USB_PIXEL_END)"
      by blast
    then show ?thesis
    proof cases
      case short
      then show ?thesis
        using True "1.prems" by (subst process_pixels.simps) (simp add: buf1_def)
    next
      case rec_store
      have st: "store temp pix (float_of_u16 ?v) = Some (temp[pix := float_of_u16 ?v])"
        using rec_store(3) "1.prems"(2) by (simp add: store_Some)
      have "\<exists>buf' pix' temp' ptf'.
              process_pixels (drop 4 buf1) (pix + 1) (temp[pix := float_of_u16 ?v]) (ptf + 1)
                = Some (buf', pix', temp', ptf') \<and>
              pix' \<le> CCD_PIXEL_COUNT \<and> length temp' = CCD_PIXEL_COUNT"
        using IH(1) [OF rec_store(1,2) refl rec_store(3) st] rec_store(3) "1.prems"(2)
        by simp
      then show ?thesis
        using True rec_store st
        by (subst process_pixels.simps) (simp add: buf1_def [symmetric])
    next
      case rec_full
      have "\<exists>buf' pix' temp' ptf'.
              process_pixels (drop 4 buf1) pix temp ptf = Some (buf', pix', temp', ptf') \<and>
              pix' \<le> CCD_PIXEL_COUNT \<and> length temp' = CCD_PIXEL_COUNT"
        using IH(2) [OF rec_full(1,2) refl rec_full(3)] "1.prems" by simp
      then show ?thesis
        using True rec_full
        by (subst process_pixels.simps) (simp add: buf1_def [symmetric])
    next
      case bad
      have "\<exists>buf' pix' temp' ptf'.
              process_pixels (drop 1 buf1) pix temp ptf = Some (buf', pix', temp', ptf') \<and>
              pix' \<le> CCD_PIXEL_COUNT \<and> length temp' = CCD_PIXEL_COUNT"
        using IH(3) [OF bad] "1.prems" by simp
      then show ?thesis
        using True bad
        by (subst process_pixels.simps) (auto simp: buf1_def [symmetric])
    qed
  qed
qed

lemma usb_stats_bounds [simp]: "usb_bounds (usb_stats now s) = usb_bounds s"
  by (cases s) (simp add: usb_stats_def usb_bounds_def Let_def)

lemma usb_stats_spectrum [simp]:
  "spectrum_data (snd (usb_stats now s)) = spectrum_data (snd s)"
  by (cases s) (simp add: usb_stats_def Let_def)

lemma usb_iteration_bounds:
  assumes "usb_bounds s"
  shows "\<exists>s'. usb_iteration rd now s = Some s' \<and> usb_bounds s' \<and>
              drop (pixel_index (fst s)) (spectrum_data (snd s')) =
              drop (pixel_index (fst s)) (spectrum_data (snd s))"
proof (cases rd)
  case None
  then show ?thesis using assms by (simp add: usb_iteration_def)
next
  case (Some byte)
  obtain l g where s: "s = (l, g)" by (cases s)
  have b: "pixel_index l \<le> CCD_PIXEL_COUNT" "length (temp_pixels l) = CCD_PIXEL_COUNT"
    "length (spectrum_data g) = CCD_PIXEL_COUNT"
    using assms by (simp_all add: s usb_bounds_def)
  define l1 where "l1 = (if length (buffer l) < usb_buffer_size
                then l\<lparr>buffer := buffer l @ [byte]\<rparr> else l)"
  have b1: "pixel_index l1 = pixel_index l" "temp_pixels l1 = temp_pixels l"
    by (simp_all add: l1_def)
  have copy: "copy_pixels (min (pixel_index l) CCD_PIXEL_COUNT) (temp_pixels l) (spectrum_data g)
     = Some (take (pixel_index l) (temp_pixels l) @ drop (pixel_index l) (spectrum_data g))"
    using b by (simp add: copy_pixels_take_drop min_absorb1)
  obtain buf' pix' temp' ptf' where pp:
    "process_pixels (buffer l1) (pixel_index l) (temp_pixels l) (pixels_this_frame l1)
       = Some (buf', pix', temp', ptf')"
    "pix' \<le> CCD_PIXEL_COUNT" "length temp' = CCD_PIXEL_COUNT"
    using process_pixels_bounds [OF b(1,2)] by blast
  have "\<exists>c s'. usb_process_byte byte s = Some (c, s') \<and> usb_bounds s' \<and>
              drop (pixel_index l) (spectrum_data (snd s')) =
              drop (pixel_index l) (spectrum_data g)"
    using b copy pp
    by (auto simp: s usb_process_byte_def l1_def [symmetric] b1 usb_bounds_def log_message_def)
  then obtain c s' where "usb_process_byte byte s = Some (c, s')" and "usb_bounds s'"
    and "drop (pixel_index l) (spectrum_data (snd s')) = drop (pixel_index l) (spectrum_data g)"
    by blast
  then have "usb_iteration rd now s = Some (if c then s' else usb_stats now s')"
    and "usb_bounds (if c then s' else usb_stats now s')"
    and "drop (pixel_index l) (spectrum_data (snd (if c then s' else usb_stats now s'))) =
         drop (pixel_index l) (spectrum_data g)"
    using Some by (simp_all add: usb_iteration_def)
  then show ?thesis
    by (simp add: s)
qed

lemma usb_run_bounds:
  "usb_bounds s \<Longrightarrow> \<exists>s'. usb_run evs s = Some s' \<and> usb_bounds s'"
proof (induction evs arbitrary: s)
  case Nil
  then show ?case by simp
next
  case (Cons ev evs)
  obtain rd now where ev: "ev = (rd, now)" by (cases ev)
  obtain s1 where "usb_iteration rd now s = Some s1" and "usb_bounds s1"
    using usb_iteration_bounds [OF Cons.prems, of rd now] by blast
  then show ?case
    using Cons.IH [of s1] by (simp add: ev)
qed

section \<open>Claims on the datagram decoder and on array bounds\<close>

lemma udp_copy_pixels_Suc:
  "udp_copy_pixels (Suc n) buf dst =
     (case udp_copy_pixels n buf dst of None \<Rightarrow> None
      | Some d \<Rightarrow> (case udp_pixel buf n of None \<Rightarrow> None
                   | Some v \<Rightarrow> store d n (float_of_u16 v)))"
  by (simp add: udp_copy_pixels_def)

lemma udp_copy_pixels_bounds:
  assumes "n \<le> length dst" and "udp_header_size + 2 * n \<le> length buf"
  shows "\<exists>sd. udp_copy_pixels n buf dst = Some sd \<and> length sd = length dst \<and>
              drop n sd = drop n dst"
  using assms
proof (induction n)
  case 0
  show ?case by (simp add: udp_copy_pixels_def)
next
  case (Suc n)
  then obtain sd where sd: "udp_copy_pixels n buf dst = Some sd" "length sd = length dst"
    "drop n sd = drop n dst"
    by auto
  obtain v where v: "udp_pixel buf n = Some v"
    using Suc.prems(2) by (simp add: udp_pixel_def)
  have "store sd n (float_of_u16 v) = Some (sd[n := float_of_u16 v])"
    using Suc.prems(1) sd(2) by (simp add: store_Some)
  moreover have "drop (Suc n) (sd[n := float_of_u16 v]) = drop (Suc n) dst"
    using sd(3) by (metis drop_Suc drop_update_cancel lessI tl_drop)
  ultimately show ?case
    using sd v by (simp add: udp_copy_pixels_Suc)
qed

lemma udp_header_Some:
  "udp_header_size \<le> length buf \<Longrightarrow> \<exists>h. udp_header buf = Some h"
  by (simp add: udp_header_def)

lemma udp_stats_fields [simp]:
  "spectrum_data (snd (udp_stats now s)) = spectrum_data (snd s)"
  "packets_received (snd (udp_stats now s)) = packets_received (snd s)"
  "last_sequence (snd (udp_stats now s)) = last_sequence (snd s)"
  by (cases s; simp add: udp_stats_def Let_def)+

text \<open>
  C3. Let the receive buffer hold a header (it is at least 13 bytes long). If
  \<open>recvfrom\<close> returned fewer bytes than the header size, or the first byte is not the
  magic byte 0xAA, or the declared pixel count exceeds CCD_PIXEL_COUNT, then the datagram
  part of the iteration returns the state as it was, and the whole iteration completes
  (no error) with the shared sample array, the publication counter \<open>packets_received\<close>
  and \<open>last_sequence\<close> unchanged.
\<close>

theorem udp_invalid_datagram_discarded:
  assumes "udp_header buf = Some h"
    and "bytes < int udp_header_size \<or> start_byte h \<noteq> 0xAA \<or>
         CCD_PIXEL_COUNT < unat (pixel_count h)"
  shows "udp_process_datagram bytes buf (l, g) = Some (l, g) \<and>
         (\<exists>l' g'. udp_iteration bytes buf now (l, g) = Some (l', g') \<and>
            spectrum_data g' = spectrum_data g \<and>
            packets_received g' = packets_received g \<and>
            last_sequence g' = last_sequence g)"
proof -
  have dg: "udp_process_datagram bytes buf (l, g) = Some (l, g)"
    using assms by (auto simp: udp_process_datagram_def)
  obtain l' g' where st: "udp_stats now (l, g) = (l', g')"
    by (cases "udp_stats now (l, g)")
  have "spectrum_data g' = spectrum_data g" "packets_received g' = packets_received g"
    "last_sequence g' = last_sequence g"
    using udp_stats_fields [of now "(l, g)"] by (simp_all add: st)
  then show ?thesis
    using dg st by (simp add: udp_iteration_def)
qed

lemma udp_iteration_bounds:
  assumes "length (spectrum_data g) = CCD_PIXEL_COUNT" and "length buf = udp_buffer_size"
  shows "\<exists>l' g' h. udp_iteration bytes buf now (l, g) = Some (l', g') \<and>
           length (spectrum_data g') = CCD_PIXEL_COUNT \<and>
           udp_header buf = Some h \<and>
           drop (unat (pixel_count h)) (spectrum_data g') =
           drop (unat (pixel_count h)) (spectrum_data g)"
proof -
  obtain h where h: "udp_header buf = Some h"
    using udp_header_Some [of buf] assms(2) by (auto simp: udp_buffer_size_def)
  have "\<exists>l1 g1. udp_process_datagram bytes buf (l, g) = Some (l1, g1) \<and>
           length (spectrum_data g1) = CCD_PIXEL_COUNT \<and>
           drop (unat (pixel_count h)) (spectrum_data g1) =
           drop (unat (pixel_count h)) (spectrum_data g)"
  proof (cases "0 < bytes \<and> int udp_header_size \<le> bytes \<and> start_byte h = 0xAA \<and>
      unat (pixel_count h) \<le> CCD_PIXEL_COUNT")
    case True
    then have "unat (pixel_count h) \<le> length (spectrum_data g)"
      and "udp_header_size + 2 * unat (pixel_count h) \<le> length buf"
      using assms by (simp_all add: udp_buffer_size_def)
    then obtain sd where "udp_copy_pixels (unat (pixel_count h)) buf (spectrum_data g) = Some sd"
      and "length sd = length (spectrum_data g)"
      and "drop (unat (pixel_count h)) sd = drop (unat (pixel_count h)) (spectrum_data g)"
      using udp_copy_pixels_bounds by blast
    then show ?thesis
      using True h assms(1) by (simp add: udp_process_datagram_def)
  next
    case False
    then show ?thesis
      using h assms(1) by (auto simp: udp_process_datagram_def)
  qed
  then obtain l1 g1 where "udp_process_datagram bytes buf (l, g) = Some (l1, g1)"
    and "length (spectrum_data g1) = CCD_PIXEL_COUNT"
    and "drop (unat (pixel_count h)) (spectrum_data g1) =
         drop (unat (pixel_count h)) (spectrum_data g)"
    by blast
  moreover obtain l' g' where "udp_stats now (l1, g1) = (l', g')"
    by (cases "udp_stats now (l1, g1)")
  ultimately show ?thesis
    using udp_stats_fields(1) [of now "(l1, g1)"] h by (simp add: udp_iteration_def)
qed

theorem udp_invalid_datagram_discarded_witness:
  "udp_process_datagram 13 [0xAA, 0, 0, 0, 0, 0, 0, 0, 0, 0xFF, 0xFF, 0, 0]
       (udp_locals_init 0, AppState_init) = Some (udp_locals_init 0, AppState_init) \<and>
   map_option (packets_received \<circ> snd)
     (udp_iteration 13 [0xAA, 0, 0, 0, 0, 0, 0, 0, 0, 0xFF, 0xFF, 0, 0] 0
        (udp_locals_init 0, AppState_init)) = Some 0"
proof -
  let ?buf = "[0xAA, 0, 0, 0, 0, 0, 0, 0, 0, 0xFF, 0xFF, 0, 0] :: u8 list"
  let ?h = "\<lparr> start_byte = 0xAA, sequence_num = 0, timestamp_us = 0, pixel_count = 0xFFFF,
             checksum = 0 \<rparr>"
  have hdr: "udp_header ?buf = Some ?h"
    by (simp add: udp_header_def udp_header_size_def le16_def le32_def)
  have bad: "13 < int udp_header_size \<or> start_byte ?h \<noteq> 0xAA \<or>
      CCD_PIXEL_COUNT < unat (pixel_count ?h)"
    by (simp add: CCD_PIXEL_COUNT_def)
  show ?thesis
    using udp_invalid_datagram_discarded [OF hdr bad, of "udp_locals_init 0" AppState_init 0]
    by (auto simp: AppState_init_def)
qed

text \<open>
  C10. Every store into the temporary and the shared sample array is inside the array (a
  store outside would make the iteration \<open>None\<close>). The constructed state with the
  initial thread locals has both arrays of CCD_PIXEL_COUNT entries and pixel index 0; from
  any state within these bounds an iteration of the serial loop completes, stays within
  them (so the pixel index never exceeds CCD_PIXEL_COUNT) and leaves every shared sample
  from the old pixel index on untouched; hence every run from the initial state completes
  within the bounds. An iteration of the UDP loop on a shared array of CCD_PIXEL_COUNT
  entries and a receive buffer of its allocated size completes, keeps the array length,
  and leaves every shared sample from the declared pixel count on untouched.
\<close>

theorem sample_writes_in_bounds:
  "usb_bounds (usb_locals_init t, AppState_init) \<and>
   (usb_bounds s \<longrightarrow>
      (\<exists>s'. usb_iteration rd now s = Some s' \<and> usb_bounds s' \<and>
         drop (pixel_index (fst s)) (spectrum_data (snd s')) =
         drop (pixel_index (fst s)) (spectrum_data (snd s)))) \<and>
   (\<exists>s'. usb_run evs (usb_locals_init t, AppState_init) = Some s' \<and> usb_bounds s') \<and>
   (length (spectrum_data g) = CCD_PIXEL_COUNT \<and> length buf = udp_buffer_size \<longrightarrow>
      (\<exists>l' g' h. udp_iteration bytes buf now' (l, g) = Some (l', g') \<and>
         length (spectrum_data g') = CCD_PIXEL_COUNT \<and>
         udp_header buf = Some h \<and>
         drop (unat (pixel_count h)) (spectrum_data g') =
         drop (unat (pixel_count h)) (spectrum_data g)))"
proof -
  have init: "usb_bounds (usb_locals_init t, AppState_init)"
    by (simp add: usb_bounds_def usb_locals_init_def AppState_init_def)
  show ?thesis
    using init usb_iteration_bounds [of s rd now] usb_run_bounds [OF init, of evs]
      udp_iteration_bounds [of g buf bytes now' l]
    by blast
qed

lemma CCD_PIXEL_COUNT_pos [simp]: "0 < CCD_PIXEL_COUNT"
  by (simp add: CCD_PIXEL_COUNT_def)

lemma last_index [simp]:
  "CCD_PIXEL_COUNT - Suc 0 < CCD_PIXEL_COUNT" "Suc (CCD_PIXEL_COUNT - Suc 0) = CCD_PIXEL_COUNT"
  by (simp_all add: CCD_PIXEL_COUNT_def)

text \<open>
  The bounds at their edges. With pixel index CCD_PIXEL_COUNT - 1 the record A5 07 01 5A is
  stored in the last entry of the temporary array and the index becomes CCD_PIXEL_COUNT;
  with pixel index CCD_PIXEL_COUNT the same record is dropped and nothing is stored; a
  frame-start marker at pixel index CCD_PIXEL_COUNT copies all CCD_PIXEL_COUNT entries to
  the shared array; a run of one record between two markers completes within the bounds.
  A datagram that declares two pixels has them copied to entries 0 and 1 of the shared
  array and leaves the others; a datagram of full size that declares CCD_PIXEL_COUNT + 1
  pixels is discarded.
\<close>

theorem sample_writes_in_bounds_witness:
  "(\<exists>s'. usb_iteration (Some 0x5A) 0
            ((usb_locals_init 0)\<lparr>buffer := [0xA5, 7, 1], receiving_frame := True,
                                  pixel_index := CCD_PIXEL_COUNT - 1\<rparr>, AppState_init)
          = Some s' \<and>
        usb_bounds s' \<and> pixel_index (fst s') = CCD_PIXEL_COUNT \<and>
        temp_pixels (fst s') ! (CCD_PIXEL_COUNT - 1) = 263) \<and>
   (\<exists>s'. usb_iteration (Some 0x11) 0
            ((usb_locals_init 0)\<lparr>temp_pixels := replicate CCD_PIXEL_COUNT 5,
                                  receiving_frame := True,
                                  pixel_index := CCD_PIXEL_COUNT\<rparr>, AppState_init)
          = Some s' \<and>
        usb_bounds s' \<and> spectrum_data (snd s') = replicate CCD_PIXEL_COUNT 5 \<and>
        packets_received (snd s') = 1) \<and>
   (\<exists>s'. usb_run [(Some 0x11, 0), (Some 0xA5, 0), (Some 7, 0), (Some 1, 0), (Some 0x5A, 0),
                   (Some 0x11, 0)] (usb_locals_init 0, AppState_init) = Some s' \<and>
        usb_bounds s') \<and>
   (\<exists>l' g'. udp_iteration 17
               ([0xAA, 0, 0, 0, 0, 0, 0, 0, 0, 2, 0, 0, 0, 7, 1, 9, 0]
                  @ replicate (udp_buffer_size - 17) 0)
               0 (udp_locals_init 0, AppState_init) = Some (l', g') \<and>
        length (spectrum_data g') = CCD_PIXEL_COUNT \<and>
        packets_received g' = 1 \<and>
        spectrum_data g' ! 0 = 263 \<and> spectrum_data g' ! 1 = 9 \<and>
        drop 2 (spectrum_data g') = drop 2 (spectrum_data AppState_init)) \<and>
   (\<exists>s'. usb_iteration (Some 0x5A) 0
            ((usb_locals_init 0)\<lparr>buffer := [0xA5, 7, 1], receiving_frame := True,
                                  pixel_index := CCD_PIXEL_COUNT\<rparr>, AppState_init)
          = Some s' \<and>
        usb_bounds s' \<and> pixel_index (fst s') = CCD_PIXEL_COUNT \<and>
        temp_pixels (fst s') = replicate CCD_PIXEL_COUNT 0) \<and>
   (\<exists>l' g'. udp_iteration 7401
               ([0xAA, 0, 0, 0, 0, 0, 0, 0, 0, 0x6F, 0x0E, 0, 0, 7, 1, 9, 0]
                  @ replicate (udp_buffer_size - 17) 0)
               0 (udp_locals_init 0, AppState_init) = Some (l', g') \<and>
        spectrum_data g' = spectrum_data AppState_init \<and> packets_received g' = 0)"
proof -
  let ?l1 = "(usb_locals_init 0)\<lparr>buffer := [0xA5, 7, 1], receiving_frame := True,
                                  pixel_index := CCD_PIXEL_COUNT - 1\<rparr>"
  let ?l2 = "(usb_locals_init 0)\<lparr>temp_pixels := replicate CCD_PIXEL_COUNT 5,
                                  receiving_frame := True, pixel_index := CCD_PIXEL_COUNT\<rparr>"
  let ?evs = "[(Some 0x11, 0), (Some 0xA5, 0), (Some 7, 0), (Some 1, 0), (Some 0x5A, 0),
               (Some 0x11, 0)] :: (u8 option \<times> int) list"
  let ?l3 = "(usb_locals_init 0)\<lparr>buffer := [0xA5, 7, 1], receiving_frame := True,
                                  pixel_index := CCD_PIXEL_COUNT\<rparr>"
  define big where "big = [0xAA, 0, 0, 0, 0, 0, 0, 0, 0, 0x6F, 0x0E, 0, 0, 7, 1, 9, 0]
                @ replicate (udp_buffer_size - 17) (0 :: u8)"
  define buf where "buf = [0xAA, 0, 0, 0, 0, 0, 0, 0, 0, 2, 0, 0, 0, 7, 1, 9, 0]
                @ replicate (udp_buffer_size - 17) (0 :: u8)"
  have b1: "usb_bounds (?l1, AppState_init)" and b2: "usb_bounds (?l2, AppState_init)"
    by (simp_all add: usb_bounds_def usb_locals_init_def AppState_init_def)
  have b3: "usb_bounds (?l3, AppState_init)"
    by (simp add: usb_bounds_def usb_locals_init_def AppState_init_def)
  have u3: "length (spectrum_data AppState_init) = CCD_PIXEL_COUNT \<and> length big = udp_buffer_size"
    by (simp add: big_def AppState_init_def udp_buffer_size_def udp_header_size_def)
  have u: "length (spectrum_data AppState_init) = CCD_PIXEL_COUNT \<and> length buf = udp_buffer_size"
    by (simp add: buf_def AppState_init_def udp_buffer_size_def udp_header_size_def)
  \<comment> \<open>what the iterations store\<close>
  have e1: "usb_iteration (Some 0x5A) 0 (?l1, AppState_init) =
      Some (?l1\<lparr>buffer := [], pixel_index := CCD_PIXEL_COUNT,
                 temp_pixels := (replicate CCD_PIXEL_COUNT 0)[CCD_PIXEL_COUNT - 1 := 263],
                 pixels_this_frame := 1\<rparr>, AppState_init)"
    by (simp add: usb_eval process_pixels_four store_def float_of_u16_def unat_pixel_value
        usb_locals_init_def)
  have e2: "map_option (spectrum_data \<circ> snd) (usb_iteration (Some 0x11) 0 (?l2, AppState_init)) =
      Some (replicate CCD_PIXEL_COUNT 5)"
    "map_option (packets_received \<circ> snd) (usb_iteration (Some 0x11) 0 (?l2, AppState_init)) =
      Some 1"
    by (simp_all add: usb_iteration_def usb_process_byte_def usb_buffer_size_def
        USB_FRAME_START_def usb_locals_init_def AppState_init_def copy_pixels_take_drop
        log_message_def)
  have hdr: "udp_header buf =
      Some \<lparr>start_byte = 0xAA, sequence_num = 0, timestamp_us = 0, pixel_count = 2,
            checksum = 0\<rparr>"
    by (simp add: buf_def udp_header_def udp_header_size_def udp_buffer_size_def le16_def
        le32_def nth_append)
  have px: "udp_pixel buf 0 = Some 263" "udp_pixel buf (Suc 0) = Some 9"
    by (simp_all add: buf_def udp_pixel_def udp_header_size_def udp_buffer_size_def le16_def
        nth_append)
  have two: "Suc 0 < CCD_PIXEL_COUNT"
    by (simp add: CCD_PIXEL_COUNT_def)
  have copy: "udp_copy_pixels 2 buf (replicate CCD_PIXEL_COUNT 0) =
      Some ((replicate CCD_PIXEL_COUNT 0)[0 := 263, Suc 0 := 9])"
  proof -
    have "[0..<2] = [0, Suc 0]"
      by (simp add: upt_rec)
    then show ?thesis
      using two by (simp add: udp_copy_pixels_def px store_def float_of_u16_def)
  qed
  have e3: "map_option (spectrum_data \<circ> snd)
        (udp_iteration 17 buf 0 (udp_locals_init 0, AppState_init)) =
      Some ((replicate CCD_PIXEL_COUNT 0)[0 := 263, Suc 0 := 9])"
    "map_option (packets_received \<circ> snd)
        (udp_iteration 17 buf 0 (udp_locals_init 0, AppState_init)) = Some 1"
  proof -
    have "2 \<le> CCD_PIXEL_COUNT"
      by (simp add: CCD_PIXEL_COUNT_def)
    then show "map_option (spectrum_data \<circ> snd)
        (udp_iteration 17 buf 0 (udp_locals_init 0, AppState_init)) =
      Some ((replicate CCD_PIXEL_COUNT 0)[0 := 263, Suc 0 := 9])"
      and "map_option (packets_received \<circ> snd)
        (udp_iteration 17 buf 0 (udp_locals_init 0, AppState_init)) = Some 1"
      using copy
      by (simp_all add: udp_iteration_def udp_process_datagram_def hdr udp_header_size_def
          AppState_init_def udp_stats_def elapsed_ms_def udp_locals_init_def)
  qed
  \<comment> \<open>what the guards keep out\<close>
  have e4: "usb_iteration (Some 0x5A) 0 (?l3, AppState_init) =
      Some (?l3\<lparr>buffer := []\<rparr>, AppState_init)"
    by (simp add: usb_eval process_pixels_four usb_locals_init_def)
  have hdr3: "udp_header big =
      Some \<lparr>start_byte = 0xAA, sequence_num = 0, timestamp_us = 0, pixel_count = 3695,
            checksum = 0\<rparr>"
    by (simp add: big_def udp_header_def udp_header_size_def udp_buffer_size_def le16_def
        le32_def nth_append)
  have e5: "udp_iteration 7401 big 0 (udp_locals_init 0, AppState_init) =
      Some (udp_locals_init 0, AppState_init)"
    by (simp add: udp_iteration_def udp_process_datagram_def hdr3 udp_header_size_def
        CCD_PIXEL_COUNT_def udp_stats_def elapsed_ms_def udp_locals_init_def)
  note thm3 = sample_writes_in_bounds [of 0 "(?l3, AppState_init)" "Some 0x5A" 0 ?evs
      AppState_init big 7401 0 "udp_locals_init 0"]
  note thm1 = sample_writes_in_bounds [of 0 "(?l1, AppState_init)" "Some 0x5A" 0 ?evs
      AppState_init buf 17 0 "udp_locals_init 0"]
  note thm2 = sample_writes_in_bounds [of 0 "(?l2, AppState_init)" "Some 0x11" 0 ?evs
      AppState_init buf 17 0 "udp_locals_init 0"]
  have p1: "\<exists>s'. usb_iteration (Some 0x5A) 0 (?l1, AppState_init) = Some s' \<and>
        usb_bounds s' \<and> pixel_index (fst s') = CCD_PIXEL_COUNT \<and>
        temp_pixels (fst s') ! (CCD_PIXEL_COUNT - 1) = 263"
    using thm1 b1 e1 by auto
  have p2: "\<exists>s'. usb_iteration (Some 0x11) 0 (?l2, AppState_init) = Some s' \<and>
        usb_bounds s' \<and> spectrum_data (snd s') = replicate CCD_PIXEL_COUNT 5 \<and>
        packets_received (snd s') = 1"
    using thm2 b2 e2 by auto
  have p3: "\<exists>s'. usb_run ?evs (usb_locals_init 0, AppState_init) = Some s' \<and> usb_bounds s'"
    using thm1 by blast
  have p4: "\<exists>l' g'. udp_iteration 17 buf 0 (udp_locals_init 0, AppState_init) = Some (l', g') \<and>
        length (spectrum_data g') = CCD_PIXEL_COUNT \<and>
        packets_received g' = 1 \<and>
        spectrum_data g' ! 0 = 263 \<and> spectrum_data g' ! 1 = 9 \<and>
        drop 2 (spectrum_data g') = drop 2 (spectrum_data AppState_init)"
  proof -
    obtain l' g' h where it: "udp_iteration 17 buf 0 (udp_locals_init 0, AppState_init) = Some (l', g')"
      and len: "length (spectrum_data g') = CCD_PIXEL_COUNT"
      and h: "udp_header buf = Some h"
      and dr: "drop (unat (pixel_count h)) (spectrum_data g') =
               drop (unat (pixel_count h)) (spectrum_data AppState_init)"
      using thm1 u by blast
    have "spectrum_data g' = (replicate CCD_PIXEL_COUNT 0)[0 := 263, Suc 0 := 9]"
      and "packets_received g' = 1"
      using e3 it by simp_all
    moreover have "unat (pixel_count h) = 2"
      using h hdr by auto
    ultimately show ?thesis
      using it len dr two by auto
  qed
  have p5: "\<exists>s'. usb_iteration (Some 0x5A) 0 (?l3, AppState_init) = Some s' \<and>
        usb_bounds s' \<and> pixel_index (fst s') = CCD_PIXEL_COUNT \<and>
        temp_pixels (fst s') = replicate CCD_PIXEL_COUNT 0"
    using thm3 b3 e4 by (auto simp: usb_locals_init_def)
  have p6: "\<exists>l' g'. udp_iteration 7401 big 0 (udp_locals_init 0, AppState_init) = Some (l', g') \<and>
        spectrum_data g' = spectrum_data AppState_init \<and> packets_received g' = 0"
    using thm3 u3 e5 by (auto simp: AppState_init_def)
  show ?thesis
    using p1 p2 p3 p4 p5 p6 unfolding buf_def big_def by blast
qed

section \<open>Claims on starting and stopping the receiver\<close>

lemma usb_iteration_channel:
  assumes "usb_iteration rd now (l, g) = Some (l', g')"
  shows "connection_mode g' = connection_mode g \<and> receiver_thread g' = receiver_thread g \<and>
         receiver_running g' = receiver_running g"
  using assms
  by (auto simp: usb_iteration_def usb_process_byte_def usb_stats_def log_message_def Let_def
      split: option.splits if_splits prod.splits)

lemma udp_iteration_channel:
  assumes "udp_iteration bytes buf now (l, g) = Some (l', g')"
  shows "connection_mode g' = connection_mode g \<and> receiver_thread g' = receiver_thread g \<and>
         receiver_running g' = receiver_running g"
  using assms
  by (auto simp: udp_iteration_def udp_process_datagram_def udp_stats_def Let_def
      split: option.splits if_splits prod.splits)

lemma start_usb_receiver_channel:
  assumes "start_usb_receiver created g = Inr (ok, g')"
  shows "if ok
         then receiver_thread g = None \<and> receiver_thread g' = Some usb_receiver_thread_fn \<and>
              receiver_running g' \<and> connection_mode g' = ConnectionMode_USB
         else receiver_thread g' = receiver_thread g \<and>
              receiver_running g' = receiver_running g \<and>
              connection_mode g' = connection_mode g"
  using assms
  by (auto simp: start_usb_receiver_def open_serial_port_def assign_receiver_thread_def
      log_message_def Let_def split: if_splits)

lemma start_udp_receiver_channel:
  assumes "start_udp_receiver env g = Inr (ok, g')"
  shows "if ok
         then receiver_thread g = None \<and> receiver_thread g' = Some udp_receiver_thread_fn \<and>
              receiver_running g' \<and> connection_mode g' = ConnectionMode_UDP
         else receiver_thread g' = receiver_thread g \<and>
              receiver_running g' = receiver_running g \<and>
              connection_mode g' = connection_mode g"
  using assms
  by (auto simp: start_udp_receiver_def assign_receiver_thread_def log_message_def Let_def
      split: if_splits)

lemma stop_receiver_channel:
  "receiver_thread (stop_receiver g) = None \<and> \<not> receiver_running (stop_receiver g) \<and>
   connection_mode (stop_receiver g) = ConnectionMode_None"
  by (simp add: stop_receiver_def close_serial_port_def log_message_def Let_def
      split: option.splits)

lemma reachable_channel:
  "reachable g \<Longrightarrow>
     (receiver_thread g = None \<longleftrightarrow> connection_mode g = ConnectionMode_None) \<and>
     (receiver_running g \<longleftrightarrow> connection_mode g \<noteq> ConnectionMode_None)"
proof (induction rule: reachable.induct)
  case reachable_init
  show ?case by (simp add: AppState_init_def)
next
  case (reachable_start_usb g created ok g')
  then show ?case
    using start_usb_receiver_channel [of created g ok g'] by (cases ok) auto
next
  case (reachable_start_udp g env ok g')
  then show ?case
    using start_udp_receiver_channel [of env g ok g'] by (cases ok) auto
next
  case (reachable_stop g)
  show ?case by (simp add: stop_receiver_channel)
next
  case (reachable_usb_iteration g rd now l l' g')
  then show ?case
    using usb_iteration_channel [of rd now l g l' g'] by simp
next
  case (reachable_udp_iteration g bytes buf now ul ul' g')
  then show ?case
    using udp_iteration_channel [of bytes buf now ul g ul' g'] by simp
next
  case (reachable_freeze g)
  then show ?case by (simp add: freeze_frame_def log_message_def)
next
  case (reachable_log g msg)
  then show ?case by (simp add: log_message_def)
qed

text \<open>
  C5. In every reachable state in which a channel is active (the connection mode is not
  \<open>None\<close>), no start succeeds: neither \<open>start_usb_receiver\<close> nor
  \<open>start_udp_receiver\<close> returns \<open>true\<close>, whatever the operating system answers
  (the transport cannot be opened, or the assignment to the still joinable thread object
  ends the process), and the controls panel offers no connect button, so a click leaves
  the state as it is or stops the receiver. A start can therefore only take effect after
  \<open>stop_receiver\<close> has set the mode back to \<open>None\<close>.
\<close>
theorem start_requires_disconnected:
  assumes "reachable g" and "connection_mode g \<noteq> ConnectionMode_None"
  shows "start_usb_receiver created g \<noteq> Inr (True, g') \<and>
         start_udp_receiver env g \<noteq> Inr (True, g') \<and>
         (draw_controls_panel c created env g = Inr g \<or>
          draw_controls_panel c created env g = Inr (stop_receiver g))"
proof -
  have joinable: "receiver_thread g \<noteq> None"
    using reachable_channel [OF assms(1)] assms(2) by simp
  have "start_usb_receiver created g \<noteq> Inr (True, g')"
    using start_usb_receiver_channel [of created g True g'] joinable by auto
  moreover have "start_udp_receiver env g \<noteq> Inr (True, g')"
    using start_udp_receiver_channel [of env g True g'] joinable by auto
  moreover have "draw_controls_panel c created env g = Inr g \<or>
          draw_controls_panel c created env g = Inr (stop_receiver g)"
    using assms(2) by (cases c) (simp_all add: draw_controls_panel_def)
  ultimately show ?thesis by blast
qed

theorem start_requires_disconnected_witness:
  "\<exists>g. reachable g \<and> connection_mode g = ConnectionMode_USB \<and>
       start_usb_receiver (Some 4) g \<noteq> Inr (True, g) \<and>
       start_udp_receiver \<lparr>wsa_startup = 0, socket_created = Some 5, bind_result = 0\<rparr> g
         \<noteq> Inr (True, g) \<and>
       draw_controls_panel Click_udp_connect (Some 4)
         \<lparr>wsa_startup = 0, socket_created = Some 5, bind_result = 0\<rparr> g = Inr g"
proof -
  obtain g where start: "start_usb_receiver (Some 3) AppState_init = Inr (True, g)"
    by (simp add: start_usb_receiver_def open_serial_port_def assign_receiver_thread_def
        AppState_init_def log_message_def)
  then have r: "reachable g"
    using reachable_init by (rule reachable_start_usb [rotated])
  have m: "connection_mode g = ConnectionMode_USB"
    using start_usb_receiver_channel [OF start] by simp
  then have ne: "connection_mode g \<noteq> ConnectionMode_None"
    by simp
  have "draw_controls_panel Click_udp_connect (Some 4)
         \<lparr>wsa_startup = 0, socket_created = Some 5, bind_result = 0\<rparr> g = Inr g"
    using m by (simp add: draw_controls_panel_def)
  then show ?thesis
    using start_requires_disconnected [OF r ne, of "Some 4" g
        "\<lparr>wsa_startup = 0, socket_created = Some 5, bind_result = 0\<rparr>" Click_udp_connect] r m
    by blast
qed

text \<open>
  C9. Called on a stopped channel (no receiver thread, \<open>receiver_running\<close> false, mode
  \<open>None\<close>), \<open>start_usb_receiver\<close> returns \<open>false\<close> exactly when the serial port
  cannot be opened, and \<open>start_udp_receiver\<close> returns \<open>false\<close> exactly when the
  socket layer cannot be started, the socket cannot be created or it cannot be bound. On
  failure there is still no receiver thread, \<open>receiver_running\<close> is false and the mode
  is \<open>None\<close>; on success the thread object runs the receiver loop of the transport,
  \<open>receiver_running\<close> is true and the mode is that of the transport.
\<close>
theorem start_fails_iff_transport_unavailable:
  assumes "receiver_thread g = None" and "\<not> receiver_running g"
    and "connection_mode g = ConnectionMode_None"
  shows "(\<exists>g'. start_usb_receiver created g = Inr (created \<noteq> None, g') \<and>
            (if created = None
             then receiver_thread g' = None \<and> \<not> receiver_running g' \<and>
                  connection_mode g' = ConnectionMode_None
             else receiver_thread g' = Some usb_receiver_thread_fn \<and> receiver_running g' \<and>
                  connection_mode g' = ConnectionMode_USB \<and> serial_handle g' = created)) \<and>
         (\<exists>g'. start_udp_receiver env g =
                 Inr (wsa_startup env = 0 \<and> socket_created env \<noteq> None \<and>
                      bind_result env \<noteq> SOCKET_ERROR, g') \<and>
            (if wsa_startup env \<noteq> 0 \<or> socket_created env = None \<or>
                bind_result env = SOCKET_ERROR
             then receiver_thread g' = None \<and> \<not> receiver_running g' \<and>
                  connection_mode g' = ConnectionMode_None
             else receiver_thread g' = Some udp_receiver_thread_fn \<and> receiver_running g' \<and>
                  connection_mode g' = ConnectionMode_UDP \<and>
                  udp_socket g' = socket_created env))"
proof (intro conjI)
  show "\<exists>g'. start_usb_receiver created g = Inr (created \<noteq> None, g') \<and>
            (if created = None
             then receiver_thread g' = None \<and> \<not> receiver_running g' \<and>
                  connection_mode g' = ConnectionMode_None
             else receiver_thread g' = Some usb_receiver_thread_fn \<and> receiver_running g' \<and>
                  connection_mode g' = ConnectionMode_USB \<and> serial_handle g' = created)"
    using assms
    by (cases created)
      (simp_all add: start_usb_receiver_def open_serial_port_def assign_receiver_thread_def
        log_message_def)
next
  show "\<exists>g'. start_udp_receiver env g =
                 Inr (wsa_startup env = 0 \<and> socket_created env \<noteq> None \<and>
                      bind_result env \<noteq> SOCKET_ERROR, g') \<and>
            (if wsa_startup env \<noteq> 0 \<or> socket_created env = None \<or>
                bind_result env = SOCKET_ERROR
             then receiver_thread g' = None \<and> \<not> receiver_running g' \<and>
                  connection_mode g' = ConnectionMode_None
             else receiver_thread g' = Some udp_receiver_thread_fn \<and> receiver_running g' \<and>
                  connection_mode g' = ConnectionMode_UDP \<and>
                  udp_socket g' = socket_created env)"
    using assms
    by (simp add: start_udp_receiver_def assign_receiver_thread_def log_message_def Let_def)
qed

theorem start_fails_iff_transport_unavailable_witness:
  "(\<exists>g'. start_usb_receiver None AppState_init = Inr (False, g') \<and>
          receiver_thread g' = None \<and> \<not> receiver_running g' \<and>
          connection_mode g' = ConnectionMode_None) \<and>
   (\<exists>g'. start_udp_receiver \<lparr>wsa_startup = 0, socket_created = Some 5, bind_result = 0\<rparr>
            AppState_init = Inr (True, g') \<and>
          receiver_thread g' = Some udp_receiver_thread_fn \<and> receiver_running g' \<and>
          connection_mode g' = ConnectionMode_UDP)"
proof -
  have "receiver_thread AppState_init = None" and "\<not> receiver_running AppState_init"
    and "connection_mode AppState_init = ConnectionMode_None"
    by (simp_all add: AppState_init_def)
  from start_fails_iff_transport_unavailable [OF this, of None
      "\<lparr>wsa_startup = 0, socket_created = Some 5, bind_result = 0\<rparr>"]
  show ?thesis
    by (auto simp: SOCKET_ERROR_def)
qed

section \<open>Claims on the snapshot and on the statistics\<close>

lemma usb_iteration_no_publish:
  assumes "usb_iteration rd now (l, g) = Some (l', g')"
    and "packets_received g' = packets_received g"
  shows "spectrum_data g' = spectrum_data g"
  using assms
  by (auto simp: usb_iteration_def usb_process_byte_def usb_stats_def log_message_def Let_def
      split: option.splits if_splits prod.splits)

lemma udp_iteration_no_publish:
  assumes "udp_iteration bytes buf now (ul, g) = Some (ul', g')"
    and "packets_received g' = packets_received g"
  shows "spectrum_data g' = spectrum_data g"
  using assms
  by (auto simp: udp_iteration_def udp_process_datagram_def udp_stats_def Let_def
      split: option.splits if_splits prod.splits)

text \<open>
  C6. The constructed state holds CCD_PIXEL_COUNT shared samples, all zero, and a
  publication count of zero, and \<open>freeze_frame\<close> on it takes a snapshot of
  CCD_PIXEL_COUNT zeros without waiting for a frame (it has no wait in it, and is defined
  on every state). An iteration of either receiver loop that leaves the
  publication count as it was leaves the shared samples as they were, so a snapshot taken
  after it still shows the samples from before.
\<close>
theorem snapshot_before_first_publish:
  "spectrum_data AppState_init = replicate CCD_PIXEL_COUNT 0 \<and>
   length (spectrum_data AppState_init) = CCD_PIXEL_COUNT \<and>
   packets_received AppState_init = 0 \<and>
   snapshot_data (freeze_frame AppState_init) = replicate CCD_PIXEL_COUNT 0 \<and>
   length (snapshot_data (freeze_frame AppState_init)) = CCD_PIXEL_COUNT \<and>
   packets_received (freeze_frame AppState_init) = 0 \<and>
   (usb_iteration rd now (l, g) = Some (l', g') \<and> packets_received g' = packets_received g
      \<longrightarrow> spectrum_data g' = spectrum_data g \<and>
          snapshot_data (freeze_frame g') = spectrum_data g) \<and>
   (udp_iteration bytes buf now (ul, g) = Some (ul', g'') \<and>
    packets_received g'' = packets_received g
      \<longrightarrow> spectrum_data g'' = spectrum_data g \<and>
          snapshot_data (freeze_frame g'') = spectrum_data g)"
  using usb_iteration_no_publish [of rd now l g l' g']
    udp_iteration_no_publish [of bytes buf now ul g ul' g'']
  by (simp add: AppState_init_def freeze_frame_def log_message_def)

theorem snapshot_before_first_publish_witness:
  "usb_iteration (Some 0xA5) 0 (usb_locals_init 0, AppState_init)
     = Some (usb_locals_init 0, AppState_init) \<and>
   snapshot_data (freeze_frame AppState_init) = replicate CCD_PIXEL_COUNT 0 \<and>
   spectrum_data AppState_init = replicate CCD_PIXEL_COUNT 0"
proof -
  have it: "usb_iteration (Some 0xA5) 0 (usb_locals_init 0, AppState_init)
     = Some (usb_locals_init 0, AppState_init)"
    by (simp add: usb_eval usb_locals_init_def)
  show ?thesis
    using snapshot_before_first_publish [of "Some 0xA5" 0 "usb_locals_init 0" AppState_init
        "usb_locals_init 0" AppState_init] it
    by simp
qed

lemma usb_stats_tick:
  assumes "1000 \<le> elapsed_ms now (last_stats_time l)"
  shows "usb_stats now (l, g) =
           (l\<lparr>packets_since_last := 0, last_stats_time := now\<rparr>,
            g\<lparr>packets_per_second :=
                real (unat (packets_since_last l)) * 1000
                  / real_of_int (elapsed_ms now (last_stats_time l)),
              last_sequence := pixels_this_frame l\<rparr>)"
  using assms by (simp add: usb_stats_def Let_def)

lemma udp_stats_tick:
  assumes "1000 \<le> elapsed_ms now (udp_last_stats_time l)"
  shows "udp_stats now (l, g) =
           (l\<lparr>udp_packets_since_last := 0, udp_last_stats_time := now\<rparr>,
            g\<lparr>packets_per_second :=
                real (unat (udp_packets_since_last l)) * 1000
                  / real_of_int (elapsed_ms now (udp_last_stats_time l))\<rparr>)"
  using assms by (simp add: udp_stats_def Let_def)

lemma usb_stats_one_second:
  assumes "elapsed_ms now (last_stats_time l) = 1000"
  shows "packets_per_second (snd (usb_stats now (l, g))) = real (unat (packets_since_last l))"
  using assms by (simp add: usb_stats_def Let_def)

lemma udp_stats_one_second:
  assumes "elapsed_ms now (udp_last_stats_time l) = 1000"
  shows "packets_per_second (snd (udp_stats now (l, g))) = real (unat (udp_packets_since_last l))"
  using assms by (simp add: udp_stats_def Let_def)

text \<open>
  C8 at the input where the serial loop departs from it. One second after the window
  start, with 7 publications counted: an iteration whose read returns nothing, and an
  iteration that reads the frame-start marker, leave through \<open>continue\<close> and do not
  reach the statistics block, so the rate stays 0, the counter stays 7 and the window
  start stays 0. An iteration that reads a data byte inside a frame does reach it and sets
  the rate to 7, and so does every iteration of the UDP loop, also one that received
  nothing.
\<close>
theorem usb_stats_skipped_on_continue:
  "usb_iteration None 1000000000 ((usb_locals_init 0)\<lparr>packets_since_last := 7\<rparr>, AppState_init)
     = Some ((usb_locals_init 0)\<lparr>packets_since_last := 7\<rparr>, AppState_init) \<and>
   map_option (packets_per_second \<circ> snd)
     (usb_iteration (Some 0x11) 1000000000
        ((usb_locals_init 0)\<lparr>packets_since_last := 7\<rparr>, AppState_init)) = Some 0 \<and>
   map_option (packets_since_last \<circ> fst)
     (usb_iteration (Some 0x11) 1000000000
        ((usb_locals_init 0)\<lparr>packets_since_last := 7\<rparr>, AppState_init)) = Some 7 \<and>
   map_option (last_stats_time \<circ> fst)
     (usb_iteration (Some 0x11) 1000000000
        ((usb_locals_init 0)\<lparr>packets_since_last := 7\<rparr>, AppState_init)) = Some 0 \<and>
   map_option (packets_per_second \<circ> snd)
     (usb_iteration (Some 0) 1000000000
        ((usb_locals_init 0)\<lparr>packets_since_last := 7, receiving_frame := True\<rparr>,
         AppState_init)) = Some 7 \<and>
   map_option (packets_per_second \<circ> snd)
     (udp_iteration (- 1) [] 1000000000
        (\<lparr>udp_last_stats_time = 0, udp_packets_since_last = 7\<rparr>, AppState_init)) = Some 7"
  by (simp add: usb_eval usb_locals_init_def AppState_init_def udp_iteration_def
      udp_process_datagram_def udp_stats_def)

section \<open>A frame with one corrupted record\<close>

text \<open>
  The four bytes of the corrupted record, fed into an empty window, store nothing and leave
  some of its last bytes in the window.
\<close>

lemma window_feed_corrupted:
  assumes "i = 0 \<or> i = 3" and "c \<noteq> pixel_record r ! i"
  shows "window_feed (corrupted_record r i c) ([], pix, temp, ptf) =
           Some (window_after_corrupted r i c, pix, temp, ptf)"
  using assms
  by (elim disjE)
    (simp_all add: corrupted_record_def pixel_record_def window_after_corrupted_def
      process_pixels_short process_pixels_four)

lemma window_after_corrupted_suffix:
  assumes "i = 0 \<or> i = 3"
  shows "\<exists>k. 0 < k \<and> window_after_corrupted r i c = drop k (corrupted_record r i c)"
proof -
  consider (end_byte) "i = 3"
    | (low) "i = 0" "fst r = USB_PIXEL_START"
    | (high) "i = 0" "fst r \<noteq> USB_PIXEL_START" "snd r = USB_PIXEL_START"
    | (none) "i = 0" "fst r \<noteq> USB_PIXEL_START" "snd r \<noteq> USB_PIXEL_START"
    using assms by blast
  then show ?thesis
  proof cases
    case end_byte
    then have "window_after_corrupted r i c = drop 1 (corrupted_record r i c)"
      by (simp add: window_after_corrupted_def corrupted_record_def pixel_record_def)
    then show ?thesis by (intro exI [of _ 1]) simp
  next
    case low
    then have "window_after_corrupted r i c = drop 1 (corrupted_record r i c)"
      by (simp add: window_after_corrupted_def corrupted_record_def pixel_record_def)
    then show ?thesis by (intro exI [of _ 1]) simp
  next
    case high
    then have "window_after_corrupted r i c = drop 2 (corrupted_record r i c)"
      by (simp add: window_after_corrupted_def corrupted_record_def pixel_record_def)
    then show ?thesis by (intro exI [of _ 2]) simp
  next
    case none
    then have "window_after_corrupted r i c = drop 4 (corrupted_record r i c)"
      by (simp add: window_after_corrupted_def corrupted_record_def pixel_record_def)
    then show ?thesis by (intro exI [of _ 4]) simp
  qed
qed

lemma length_window_after_corrupted: "length (window_after_corrupted r i c) < 4"
  using length_dropWhile_le [of "\<lambda>b. b \<noteq> USB_PIXEL_START" "[fst r, snd r, USB_PIXEL_END]"]
  by (simp add: window_after_corrupted_def)

text \<open>
  The next record is decoded from that window as from an empty one: its start byte either
  finds the window without a start byte, or completes a window that fails the end-byte
  test, of which one byte is dropped at a time. Only a false start byte followed three
  positions later by 0x5A would be taken for a record.
\<close>

lemma window_feed_record_resync:
  assumes "i = 0 \<or> i = 3" and "c \<noteq> pixel_record r ! i"
    and "\<not> (snd r = USB_PIXEL_START \<and> fst q = USB_PIXEL_END)"
    and "\<not> (c = USB_PIXEL_START \<and> snd q = USB_PIXEL_END)"
  shows "window_feed (pixel_record q) (window_after_corrupted r i c, pix, temp, ptf) =
         window_feed (pixel_record q) ([], pix, temp, ptf)"
proof -
  have stop: "i = 3 \<Longrightarrow> c \<noteq> USB_PIXEL_END"
    using assms(2) by (simp add: pixel_record_def)
  have ne: "USB_PIXEL_START \<noteq> USB_PIXEL_END"
    by (simp add: USB_PIXEL_START_def USB_PIXEL_END_def)
  show ?thesis
    using assms(1)
  proof (elim disjE)
    assume "i = 0"
    then show ?thesis
      using assms(3)
      by (cases "fst r = USB_PIXEL_START"; cases "snd r = USB_PIXEL_START";
          cases "fst q = USB_PIXEL_END")
        (simp_all add: window_after_corrupted_def pixel_record_def process_pixels_short
          process_pixels_four ne)
  next
    assume "i = 3"
    then show ?thesis
      using assms(3,4) stop
      by (cases "fst r = USB_PIXEL_START"; cases "snd r = USB_PIXEL_START";
          cases "c = USB_PIXEL_START"; cases "fst q = USB_PIXEL_END";
          cases "snd q = USB_PIXEL_END")
        (simp_all add: window_after_corrupted_def pixel_record_def process_pixels_short
          process_pixels_four ne)
  qed
qed

lemma frame_records_append:
  "frame_records (xs @ ys) = frame_records xs @ frame_records ys"
  by (simp add: frame_records_def)

lemma length_frame_records: "length (frame_records recs) = 4 * length recs"
  by (induction recs) (simp_all add: frame_records_def pixel_record_def)

lemma window_feed_records_resync:
  assumes "i = 0 \<or> i = 3" and "c \<noteq> pixel_record r ! i"
    and "post \<noteq> []"
    and "\<not> (snd r = USB_PIXEL_START \<and> fst (hd post) = USB_PIXEL_END)"
    and "\<not> (c = USB_PIXEL_START \<and> snd (hd post) = USB_PIXEL_END)"
  shows "window_feed (frame_records post) (window_after_corrupted r i c, pix, temp, ptf) =
         window_feed (frame_records post) ([], pix, temp, ptf)"
proof -
  obtain q rest where post: "post = q # rest"
    using assms(3) by (cases post) auto
  have "window_feed (pixel_record q) (window_after_corrupted r i c, pix, temp, ptf) =
        window_feed (pixel_record q) ([], pix, temp, ptf)"
    using assms(4,5) by (intro window_feed_record_resync assms(1,2)) (simp_all add: post)
  then show ?thesis
    by (simp add: post frame_records_def window_feed_append)
qed

lemma window_feed_corrupted_frame:
  assumes len: "length temp = CCD_PIXEL_COUNT"
    and i: "i = 0 \<or> i = 3" and c: "c \<noteq> pixel_record r ! i"
    and next_low: "post \<noteq> [] \<longrightarrow>
        \<not> (snd r = USB_PIXEL_START \<and> fst (hd post) = USB_PIXEL_END)"
    and next_high: "post \<noteq> [] \<longrightarrow>
        \<not> (c = USB_PIXEL_START \<and> snd (hd post) = USB_PIXEL_END)"
  shows "\<exists>buf' ptf'. window_feed (frame_records pre @ corrupted_record r i c @ frame_records post)
             ([], 0, temp, ptf) =
           Some (buf', min (length (pre @ post)) CCD_PIXEL_COUNT,
                 map sample_of (take CCD_PIXEL_COUNT (pre @ post))
                   @ drop (min (length (pre @ post)) CCD_PIXEL_COUNT) temp,
                 ptf') \<and> length buf' < 4"
proof -
  let ?jk = "window_after_corrupted r i c"
  obtain ptf1 where pre: "window_feed (frame_records pre) ([], 0, temp, ptf) =
      Some ([], min (length pre) CCD_PIXEL_COUNT,
            map sample_of (take CCD_PIXEL_COUNT pre) @ drop (min (length pre) CCD_PIXEL_COUNT) temp,
            ptf1)"
    using window_feed_records [of temp 0 "[]" pre ptf] len by auto
  let ?p1 = "min (length pre) CCD_PIXEL_COUNT"
  let ?t1 = "map sample_of (take CCD_PIXEL_COUNT pre) @ drop ?p1 temp"
  have bad: "window_feed (corrupted_record r i c) ([], ?p1, ?t1, ptf1) = Some (?jk, ?p1, ?t1, ptf1)"
    by (rule window_feed_corrupted [OF i c])
  have upto: "window_feed (frame_records pre @ corrupted_record r i c) ([], 0, temp, ptf) =
      Some (?jk, ?p1, ?t1, ptf1)"
    by (simp add: window_feed_append pre bad)
  show ?thesis
  proof (cases "post = []")
    case True
    then show ?thesis
      using upto length_window_after_corrupted [of r i c] by (simp add: frame_records_def)
  next
    case False
    have "window_feed (frame_records post) (?jk, ?p1, ?t1, ptf1) =
          window_feed (frame_records post) ([], ?p1, ?t1, ptf1)"
      using next_low next_high False by (intro window_feed_records_resync i c) simp_all
    then have "window_feed (frame_records pre @ corrupted_record r i c @ frame_records post)
                 ([], 0, temp, ptf) =
               window_feed (frame_records (pre @ post)) ([], 0, temp, ptf)"
      using upto pre
      by (simp add: window_feed_append frame_records_append flip: append_assoc)
    moreover obtain ptf' where "window_feed (frame_records (pre @ post)) ([], 0, temp, ptf) =
        Some ([], min (length (pre @ post)) CCD_PIXEL_COUNT,
              map sample_of (take CCD_PIXEL_COUNT (pre @ post))
                @ drop (min (length (pre @ post)) CCD_PIXEL_COUNT) temp, ptf')"
      using window_feed_records [of temp 0 "[]" "pre @ post" ptf] len False by auto
    ultimately show ?thesis by simp
  qed
qed

lemma corrupted_record_no_marker:
  assumes "c \<noteq> USB_FRAME_START" "fst r \<noteq> USB_FRAME_START" "snd r \<noteq> USB_FRAME_START"
  shows "\<forall>b \<in> set (corrupted_record r i c). b \<noteq> USB_FRAME_START"
proof
  fix b assume "b \<in> set (corrupted_record r i c)"
  then have "b \<in> insert c (set (pixel_record r))"
    unfolding corrupted_record_def using set_update_subset_insert by fastforce
  then show "b \<noteq> USB_FRAME_START"
    using assms
    by (auto simp: pixel_record_def USB_FRAME_START_def USB_PIXEL_START_def USB_PIXEL_END_def)
qed

lemma frame_records_parts_no_marker:
  assumes "\<forall>q \<in> set (pre @ post). fst q \<noteq> USB_FRAME_START \<and> snd q \<noteq> USB_FRAME_START"
  shows "\<forall>b \<in> set (frame_records pre). b \<noteq> USB_FRAME_START"
    and "\<forall>b \<in> set (frame_records post). b \<noteq> USB_FRAME_START"
proof -
  have "\<forall>q \<in> set pre. fst q \<noteq> USB_FRAME_START \<and> snd q \<noteq> USB_FRAME_START"
    and "\<forall>q \<in> set post. fst q \<noteq> USB_FRAME_START \<and> snd q \<noteq> USB_FRAME_START"
    using assms by simp_all
  then show "\<forall>b \<in> set (frame_records pre). b \<noteq> USB_FRAME_START"
    and "\<forall>b \<in> set (frame_records post). b \<noteq> USB_FRAME_START"
    using frame_records_no_marker by blast+
qed

lemma take_length_append: "n = length xs \<Longrightarrow> take n (xs @ ys) = xs"
  by simp

lemma events_take_corrupted:
  assumes "map fst evs =
           map Some (frame_records pre @ corrupted_record r i c
                       @ frame_records post @ [USB_FRAME_START])"
  shows "map fst (take (4 + 4 * length pre) evs) =
          map Some (frame_records pre @ corrupted_record r i c)"
proof -
  have len_bad: "length (corrupted_record r i c) = 4"
    unfolding corrupted_record_def length_list_update by (simp add: pixel_record_def)
  have "4 + 4 * length pre = length (frame_records pre @ corrupted_record r i c)"
    by (simp add: length_frame_records len_bad)
  then have "take (4 + 4 * length pre)
        ((frame_records pre @ corrupted_record r i c)
          @ (frame_records post @ [USB_FRAME_START])) =
      frame_records pre @ corrupted_record r i c"
    by (rule take_length_append)
  then have A: "take (4 + 4 * length pre)
        (frame_records pre @ corrupted_record r i c
          @ frame_records post @ [USB_FRAME_START]) =
      frame_records pre @ corrupted_record r i c"
    by (simp only: append_assoc)
  have "map fst (take (4 + 4 * length pre) evs) = take (4 + 4 * length pre) (map fst evs)"
    by (simp only: take_map)
  also have "\<dots> = map Some (take (4 + 4 * length pre)
        (frame_records pre @ corrupted_record r i c
          @ frame_records post @ [USB_FRAME_START]))"
    by (simp only: assms take_map)
  finally show ?thesis
    by (simp only: A)
qed

text \<open>The closing marker publishes what was decoded, if anything was.\<close>

lemma usb_frame_end:
  assumes view: "decoder_view s = (buf, pix, True, temp, ptf, sd, pr, lg)"
    and "length buf < 4"
    and "\<forall>b \<in> set body. b \<noteq> USB_FRAME_START"
    and feed: "window_feed body (buf, pix, temp, ptf) = Some (buf', pix', temp', ptf')"
    and "pix' \<le> CCD_PIXEL_COUNT"
    and "length temp' = CCD_PIXEL_COUNT" and "length sd = CCD_PIXEL_COUNT"
    and evs: "map fst evs = map Some (body @ [USB_FRAME_START])"
  shows "\<exists>s'. usb_run evs s = Some s' \<and>
              decoder_view s' =
                (if 0 < pix'
                 then ([], 0, True, temp', 0, take pix' temp' @ drop pix' sd, pr + 1,
                       log_push lg (Log_frame_complete pix'))
                 else ([], 0, True, temp', 0, sd, pr, lg))"
proof -
  obtain now evs' where split: "evs = evs' @ [(Some USB_FRAME_START, now)]"
    and evs': "map fst evs' = map Some body"
    using evs by (rule events_snoc)
  obtain s1 where run1: "usb_run evs' s = Some s1"
    and v1: "decoder_view s1 = (buf', pix', True, temp', ptf', sd, pr, lg)"
    using usb_run_window [OF view assms(2,3) evs' feed] by blast
  obtain s2 where "usb_iteration (Some USB_FRAME_START) now s1 = Some s2"
    and "decoder_view s2 =
           (if True \<and> 0 < pix'
            then ([], 0, True, temp', 0, take pix' temp' @ drop pix' sd, pr + 1,
                  log_push lg (Log_frame_complete pix'))
            else ([], 0, True, temp', 0, sd, pr, lg))"
    using usb_iteration_marker [OF v1, of now] assms(5-7) by auto
  then show ?thesis
    by (simp add: split usb_run_append run1)
qed

text \<open>
  C7, amended. From any state within the bounds of the sample arrays, let the loop read a
  frame-start marker and then, with any clock values, the records \<open>pre\<close>, one record
  whose start byte (position 0) or end byte (position 3) has been replaced by another byte
  \<open>c\<close>, the records \<open>post\<close>, and a second frame-start marker. Assume that \<open>c\<close> and
  the two payload bytes of the corrupted record are not 0x11, that no payload byte of the
  other records is 0x11, and that the record following the corrupted one, if there is one,
  neither has the low byte 0x5A while the high byte of the corrupted record is 0xA5, nor
  has the high byte 0x5A while \<open>c\<close> is 0xA5. The bytes \<open>c\<close> and the payload of the
  corrupted record may otherwise be anything, 0xA5 included. Then (1) right after the four
  bytes of the corrupted record nothing has been published, the pixel index counts the
  records of \<open>pre\<close> only, and the window holds at most three bytes, the bytes of the
  corrupted record not yet dropped (from its first 0xA5 after position 0 on when the start
  byte was replaced, its last three bytes when the end byte was replaced); (2) the run
  completes, and the frame that the second marker publishes has the samples of \<open>pre\<close>
  followed by those of \<open>post\<close> (every record after the corrupted one is decoded and
  stored one index earlier than in the intact frame), with
  min(length pre + length post, CCD_PIXEL_COUNT) samples; exactly one frame is published,
  or none when the corrupted record is the only record of the frame.
\<close>

theorem usb_corrupted_record_skipped:
  assumes "usb_bounds (l, g)"
    and "i = 0 \<or> i = 3" and "c \<noteq> pixel_record r ! i"
    and "c \<noteq> USB_FRAME_START \<and> fst r \<noteq> USB_FRAME_START \<and> snd r \<noteq> USB_FRAME_START"
    and "\<forall>q \<in> set (pre @ post). fst q \<noteq> USB_FRAME_START \<and> snd q \<noteq> USB_FRAME_START"
    and "post \<noteq> [] \<longrightarrow>
           \<not> (snd r = USB_PIXEL_START \<and> fst (hd post) = USB_PIXEL_END) \<and>
           \<not> (c = USB_PIXEL_START \<and> snd (hd post) = USB_PIXEL_END)"
    and "map fst evs =
           map Some (frame_records pre @ corrupted_record r i c
                       @ frame_records post @ [USB_FRAME_START])"
  shows "\<exists>l0 g0. usb_iteration (Some USB_FRAME_START) now (l, g) = Some (l0, g0) \<and>
         (\<exists>l1 g1. usb_run (take (4 + 4 * length pre) evs) (l0, g0) = Some (l1, g1) \<and>
            buffer l1 = window_after_corrupted r i c \<and>
            length (buffer l1) \<le> 3 \<and>
            pixel_index l1 = min (length pre) CCD_PIXEL_COUNT \<and>
            packets_received g1 = packets_received g0) \<and>
         (\<exists>l' g'. usb_run evs (l0, g0) = Some (l', g') \<and>
            packets_received g' =
              (if pre @ post = [] then packets_received g0 else packets_received g0 + 1) \<and>
            console_log g' =
              (if pre @ post = [] then console_log g0
               else log_push (console_log g0)
                      (Log_frame_complete (min (length (pre @ post)) CCD_PIXEL_COUNT))) \<and>
            spectrum_data g' =
              map sample_of (take CCD_PIXEL_COUNT (pre @ post))
                @ drop (min (length (pre @ post)) CCD_PIXEL_COUNT) (spectrum_data g0))"
proof -
  let ?bad = "corrupted_record r i c"
  let ?body = "frame_records pre @ ?bad @ frame_records post"
  obtain l0 g0 where first: "usb_iteration (Some USB_FRAME_START) now (l, g) = Some (l0, g0)"
    and st: "receiving_frame l0" "buffer l0 = []" "pixel_index l0 = 0"
    and len: "length (temp_pixels l0) = CCD_PIXEL_COUNT"
      "length (spectrum_data g0) = CCD_PIXEL_COUNT"
    using usb_frame_start_state [OF assms(1), of now] by blast
  have view: "decoder_view (l0, g0) =
          ([], 0, True, temp_pixels l0, pixels_this_frame l0,
           spectrum_data g0, packets_received g0, console_log g0)"
    using st by (simp add: decoder_view_def)
  have pre_ok: "\<forall>b \<in> set (frame_records pre). b \<noteq> USB_FRAME_START"
    and post_ok: "\<forall>b \<in> set (frame_records post). b \<noteq> USB_FRAME_START"
    using assms(5) by (rule frame_records_parts_no_marker)+
  have bad_ok: "\<forall>b \<in> set ?bad. b \<noteq> USB_FRAME_START"
    using assms(4) by (intro corrupted_record_no_marker) simp_all
  have upto_ok: "\<forall>b \<in> set (frame_records pre @ ?bad). b \<noteq> USB_FRAME_START"
    using pre_ok bad_ok by auto
  have body_ok: "\<forall>b \<in> set ?body. b \<noteq> USB_FRAME_START"
    using pre_ok bad_ok post_ok by auto
  have next_low: "post \<noteq> [] \<longrightarrow>
      \<not> (snd r = USB_PIXEL_START \<and> fst (hd post) = USB_PIXEL_END)"
    and next_high: "post \<noteq> [] \<longrightarrow>
      \<not> (c = USB_PIXEL_START \<and> snd (hd post) = USB_PIXEL_END)"
    using assms(6) by blast+

  \<comment> \<open>the state after the corrupted record\<close>
  define jk where "jk = window_after_corrupted r i c"
  define p1 where "p1 = min (length pre) CCD_PIXEL_COUNT"
  define t1 where "t1 = map sample_of (take CCD_PIXEL_COUNT pre) @ drop p1 (temp_pixels l0)"
  obtain ptf1 where pre:
    "window_feed (frame_records pre) ([], 0, temp_pixels l0, pixels_this_frame l0) =
       Some ([], p1, t1, ptf1)"
    using window_feed_records [of "temp_pixels l0" 0 "[]" pre "pixels_this_frame l0"] len(1)
    by (auto simp: p1_def t1_def)
  have upto: "window_feed (frame_records pre @ ?bad)
                ([], 0, temp_pixels l0, pixels_this_frame l0) = Some (jk, p1, t1, ptf1)"
    unfolding jk_def
    by (simp add: window_feed_append pre window_feed_corrupted [OF assms(2,3)])
  have evs1: "map fst (take (4 + 4 * length pre) evs) = map Some (frame_records pre @ ?bad)"
    using assms(7) by (rule events_take_corrupted)
  obtain s1 where run1: "usb_run (take (4 + 4 * length pre) evs) (l0, g0) = Some s1"
    and v1: "decoder_view s1 =
      (jk, p1, True, t1, ptf1, spectrum_data g0, packets_received g0, console_log g0)"
    using usb_run_window [OF view _ upto_ok evs1 upto] by auto
  have jk: "length jk \<le> 3"
    using length_window_after_corrupted [of r i c] by (simp add: jk_def)
  have part1: "\<exists>l1 g1. usb_run (take (4 + 4 * length pre) evs) (l0, g0) = Some (l1, g1) \<and>
            buffer l1 = window_after_corrupted r i c \<and> length (buffer l1) \<le> 3 \<and>
            pixel_index l1 = min (length pre) CCD_PIXEL_COUNT \<and>
            packets_received g1 = packets_received g0"
    using run1 v1 jk unfolding p1_def jk_def by (cases s1) (simp add: decoder_view_def)

  \<comment> \<open>the whole frame\<close>
  define n where "n = min (length (pre @ post)) CCD_PIXEL_COUNT"
  define temp' where "temp' = map sample_of (take CCD_PIXEL_COUNT (pre @ post))
                   @ drop n (temp_pixels l0)"
  obtain buf' ptf' where feed:
    "window_feed ?body ([], 0, temp_pixels l0, pixels_this_frame l0) = Some (buf', n, temp', ptf')"
    and short: "length buf' < 4"
    using window_feed_corrupted_frame [OF len(1) assms(2,3) next_low next_high,
        of pre "pixels_this_frame l0"]
    unfolding n_def temp'_def by blast
  have npos: "0 < n \<longleftrightarrow> pre @ post \<noteq> []"
    by (simp add: n_def CCD_PIXEL_COUNT_def)
  have nle: "n \<le> CCD_PIXEL_COUNT" and len': "length temp' = CCD_PIXEL_COUNT"
    using len(1) by (auto simp: n_def temp'_def)
  have whole: "map fst evs = map Some (?body @ [USB_FRAME_START])"
    using assms(7) by simp
  have empty: "length ([] :: u8 list) < 4"
    by simp
  obtain s' where run: "usb_run evs (l0, g0) = Some s'"
    and v: "decoder_view s' =
      (if 0 < n
       then ([], 0, True, temp', 0, take n temp' @ drop n (spectrum_data g0),
             packets_received g0 + 1, log_push (console_log g0) (Log_frame_complete n))
       else ([], 0, True, temp', 0, spectrum_data g0, packets_received g0, console_log g0))"
    using usb_frame_end [OF view empty body_ok feed nle len' len(2) whole] by blast
  have "take n temp' = map sample_of (take CCD_PIXEL_COUNT (pre @ post))"
    by (simp add: temp'_def n_def)
  moreover have "pre @ post = [] \<Longrightarrow> n = 0"
    by (simp add: n_def)
  ultimately have part2: "\<exists>l' g'. usb_run evs (l0, g0) = Some (l', g') \<and>
            packets_received g' =
              (if pre @ post = [] then packets_received g0 else packets_received g0 + 1) \<and>
            console_log g' =
              (if pre @ post = [] then console_log g0
               else log_push (console_log g0) (Log_frame_complete n)) \<and>
            spectrum_data g' =
              map sample_of (take CCD_PIXEL_COUNT (pre @ post)) @ drop n (spectrum_data g0)"
    using run v npos by (cases s') (auto simp: decoder_view_def)
  show ?thesis
    using first part1 part2 unfolding n_def by blast
qed

lemma process_pixels_skip:
  assumes "x \<noteq> USB_PIXEL_START" and "3 \<le> length rest"
  shows "process_pixels (x # rest) pix temp ptf =
         process_pixels (dropWhile (\<lambda>b. b \<noteq> USB_PIXEL_START) rest) pix temp ptf"
  using assms by (simp add: process_pixels_scan)

lemma hd_list_update_0: "xs \<noteq> [] \<Longrightarrow> hd (xs[0 := v]) = v"
  by (cases xs) simp_all

lemmas window_eval =
  process_pixels_record [unfolded USB_PIXEL_START_def USB_PIXEL_END_def]
  process_pixels_bad_end [unfolded USB_PIXEL_START_def USB_PIXEL_END_def]
  process_pixels_skip [unfolded USB_PIXEL_START_def]
  store_def copy_pixels_def float_of_u16_def unat_pixel_value log_message_def log_push_def
  hd_list_update_0

text \<open>
  C7, as stated, fails. The claim: whatever single byte of one record is corrupted so that
  the pattern 0xA5 .. 0x5A breaks, exactly that record is skipped and every later record
  of the frame is decoded. Four frames, each with one corrupted byte:
  11 | A5 01 00 [A5] | A5 02 5A 5A | 11 (end byte replaced by 0xA5, high byte of the
  next record 0x5A) publishes the value 677 where the second record holds 23042;
  11 | A5 01 00 5A | A5 02 00 [11] | A5 03 00 5A | 11 (end byte replaced by 0x11)
  publishes two frames instead of one;
  11 | A5 01 A5 [00] | A5 5A 00 5A | 11 (end byte replaced, high byte of the corrupted
  record 0xA5, low byte of the next record 0x5A) publishes the value 42240 where the
  second record holds 90;
  11 | A5 01 00 5A | A5 11 00 [00] | A5 03 00 5A | 11 (end byte replaced, low byte of
  the corrupted record 0x11) publishes two frames instead of one.
\<close>

theorem usb_corrupted_record_counterexample:
  "map_option (hd \<circ> spectrum_data \<circ> snd)
     (usb_run [(Some 0x11, 0),
               (Some 0xA5, 0), (Some 0x01, 0), (Some 0x00, 0), (Some 0xA5, 0),
               (Some 0xA5, 0), (Some 0x02, 0), (Some 0x5A, 0), (Some 0x5A, 0),
               (Some 0x11, 0)] (usb_locals_init 0, AppState_init)) = Some 677 \<and>
   sample_of (0x02, 0x5A) = 23042 \<and>
   map_option (packets_received \<circ> snd)
     (usb_run [(Some 0x11, 0),
               (Some 0xA5, 0), (Some 0x01, 0), (Some 0x00, 0), (Some 0x5A, 0),
               (Some 0xA5, 0), (Some 0x02, 0), (Some 0x00, 0), (Some 0x11, 0),
               (Some 0xA5, 0), (Some 0x03, 0), (Some 0x00, 0), (Some 0x5A, 0),
               (Some 0x11, 0)] (usb_locals_init 0, AppState_init)) = Some 2 \<and>
   map_option (hd \<circ> spectrum_data \<circ> snd)
     (usb_run [(Some 0x11, 0),
               (Some 0xA5, 0), (Some 0x01, 0), (Some 0xA5, 0), (Some 0x00, 0),
               (Some 0xA5, 0), (Some 0x5A, 0), (Some 0x00, 0), (Some 0x5A, 0),
               (Some 0x11, 0)] (usb_locals_init 0, AppState_init)) = Some 42240 \<and>
   sample_of (0x5A, 0x00) = 90 \<and>
   map_option (packets_received \<circ> snd)
     (usb_run [(Some 0x11, 0),
               (Some 0xA5, 0), (Some 0x01, 0), (Some 0x00, 0), (Some 0x5A, 0),
               (Some 0xA5, 0), (Some 0x11, 0), (Some 0x00, 0), (Some 0x00, 0),
               (Some 0xA5, 0), (Some 0x03, 0), (Some 0x00, 0), (Some 0x5A, 0),
               (Some 0x11, 0)] (usb_locals_init 0, AppState_init)) = Some 2"
  by (simp add: usb_eval window_eval usb_locals_init_def AppState_init_def sample_of_def)

text \<open>
  Two frames inside the hypotheses on which the byte-at-a-time retry of the inner loop acts:
  11 | A5 01 00 5A | A5 A5 A5 [A5] | A5 03 00 5A | 11 (end byte replaced by 0xA5, both
  payload bytes 0xA5), where the window holds A5 A5 A5 after the corrupted record, and
  11 | A5 01 00 5A | [00] A5 02 5A | A5 03 00 5A | 11 (start byte replaced, low byte
  0xA5), where it holds A5 02 5A. In both, the start byte of the next record enters a
  window that fails the end-byte test, one byte is dropped, and the next record is decoded:
  the published frame has the two samples 1 and 3.
\<close>

theorem usb_corrupted_record_skipped_witness:
  "usb_iteration (Some 0x11) 0 (usb_locals_init 0, AppState_init) =
     Some ((usb_locals_init 0)\<lparr>receiving_frame := True\<rparr>, AppState_init) \<and>
   (\<exists>l1 g1. usb_run [(Some 0xA5, 0), (Some 0x01, 0), (Some 0x00, 0), (Some 0x5A, 0),
                     (Some 0xA5, 0), (Some 0xA5, 0), (Some 0xA5, 0), (Some 0xA5, 0)]
              ((usb_locals_init 0)\<lparr>receiving_frame := True\<rparr>, AppState_init) = Some (l1, g1) \<and>
      buffer l1 = [0xA5, 0xA5, 0xA5] \<and> pixel_index l1 = 1 \<and> packets_received g1 = 0) \<and>
   (\<exists>l' g'. usb_run [(Some 0xA5, 0), (Some 0x01, 0), (Some 0x00, 0), (Some 0x5A, 0),
                     (Some 0xA5, 0), (Some 0xA5, 0), (Some 0xA5, 0), (Some 0xA5, 0),
                     (Some 0xA5, 0), (Some 0x03, 0), (Some 0x00, 0), (Some 0x5A, 0),
                     (Some 0x11, 0)]
              ((usb_locals_init 0)\<lparr>receiving_frame := True\<rparr>, AppState_init) = Some (l', g') \<and>
      packets_received g' = 1 \<and>
      console_log g' = [Log_frame_complete 2] \<and>
      spectrum_data g' = 1 # 3 # drop 2 (replicate CCD_PIXEL_COUNT 0)) \<and>
   (\<exists>l1 g1. usb_run [(Some 0xA5, 0), (Some 0x01, 0), (Some 0x00, 0), (Some 0x5A, 0),
                     (Some 0x00, 0), (Some 0xA5, 0), (Some 0x02, 0), (Some 0x5A, 0)]
              ((usb_locals_init 0)\<lparr>receiving_frame := True\<rparr>, AppState_init) = Some (l1, g1) \<and>
      buffer l1 = [0xA5, 0x02, 0x5A] \<and> pixel_index l1 = 1 \<and> packets_received g1 = 0) \<and>
   (\<exists>l' g'. usb_run [(Some 0xA5, 0), (Some 0x01, 0), (Some 0x00, 0), (Some 0x5A, 0),
                     (Some 0x00, 0), (Some 0xA5, 0), (Some 0x02, 0), (Some 0x5A, 0),
                     (Some 0xA5, 0), (Some 0x03, 0), (Some 0x00, 0), (Some 0x5A, 0),
                     (Some 0x11, 0)]
              ((usb_locals_init 0)\<lparr>receiving_frame := True\<rparr>, AppState_init) = Some (l', g') \<and>
      packets_received g' = 1 \<and>
      console_log g' = [Log_frame_complete 2] \<and>
      spectrum_data g' = 1 # 3 # drop 2 (replicate CCD_PIXEL_COUNT 0))"
proof -
  let ?s0 = "((usb_locals_init 0)\<lparr>receiving_frame := True\<rparr>, AppState_init)"
  let ?evs = "[(Some 0xA5, 0), (Some 0x01, 0), (Some 0x00, 0), (Some 0x5A, 0),
               (Some 0xA5, 0), (Some 0xA5, 0), (Some 0xA5, 0), (Some 0xA5, 0),
               (Some 0xA5, 0), (Some 0x03, 0), (Some 0x00, 0), (Some 0x5A, 0),
               (Some 0x11, 0)] :: (u8 option \<times> int) list"
  let ?evs2 = "[(Some 0xA5, 0), (Some 0x01, 0), (Some 0x00, 0), (Some 0x5A, 0),
                (Some 0x00, 0), (Some 0xA5, 0), (Some 0x02, 0), (Some 0x5A, 0),
                (Some 0xA5, 0), (Some 0x03, 0), (Some 0x00, 0), (Some 0x5A, 0),
                (Some 0x11, 0)] :: (u8 option \<times> int) list"
  let ?pre = "[(1, 0)] :: (u8 \<times> u8) list" and ?post = "[(3, 0)] :: (u8 \<times> u8) list"
  let ?r = "(0xA5, 0xA5) :: u8 \<times> u8" and ?r2 = "(0xA5, 0x02) :: u8 \<times> u8"
  have first0: "usb_iteration (Some 0x11) 0 (usb_locals_init 0, AppState_init) = Some ?s0"
    by (simp add: usb_eval usb_locals_init_def)
  then have first: "usb_iteration (Some USB_FRAME_START) 0 (usb_locals_init 0, AppState_init) =
      Some ?s0"
    by (simp add: USB_FRAME_START_def)
  have h: "usb_bounds (usb_locals_init 0, AppState_init)"
    "(3 :: nat) = 0 \<or> (3 :: nat) = 3"
    "(0xA5 :: u8) \<noteq> pixel_record ?r ! 3"
    "(0xA5 :: u8) \<noteq> USB_FRAME_START \<and> fst ?r \<noteq> USB_FRAME_START \<and> snd ?r \<noteq> USB_FRAME_START"
    "\<forall>q \<in> set (?pre @ ?post). fst q \<noteq> USB_FRAME_START \<and> snd q \<noteq> USB_FRAME_START"
    "?post \<noteq> [] \<longrightarrow>
       \<not> (snd ?r = USB_PIXEL_START \<and> fst (hd ?post) = USB_PIXEL_END) \<and>
       \<not> ((0xA5 :: u8) = USB_PIXEL_START \<and> snd (hd ?post) = USB_PIXEL_END)"
    "map fst ?evs =
       map Some (frame_records ?pre @ corrupted_record ?r 3 0xA5
                   @ frame_records ?post @ [USB_FRAME_START])"
    by (simp_all add: usb_bounds_def usb_locals_init_def AppState_init_def frame_records_def
        pixel_record_def corrupted_record_def USB_FRAME_START_def USB_PIXEL_START_def
        USB_PIXEL_END_def)
  have h2: "(0 :: nat) = 0 \<or> (0 :: nat) = 3"
    "(0 :: u8) \<noteq> pixel_record ?r2 ! 0"
    "(0 :: u8) \<noteq> USB_FRAME_START \<and> fst ?r2 \<noteq> USB_FRAME_START \<and> snd ?r2 \<noteq> USB_FRAME_START"
    "\<forall>q \<in> set (?pre @ ?post). fst q \<noteq> USB_FRAME_START \<and> snd q \<noteq> USB_FRAME_START"
    "?post \<noteq> [] \<longrightarrow>
       \<not> (snd ?r2 = USB_PIXEL_START \<and> fst (hd ?post) = USB_PIXEL_END) \<and>
       \<not> ((0 :: u8) = USB_PIXEL_START \<and> snd (hd ?post) = USB_PIXEL_END)"
    "map fst ?evs2 =
       map Some (frame_records ?pre @ corrupted_record ?r2 0 0
                   @ frame_records ?post @ [USB_FRAME_START])"
    by (simp_all add: frame_records_def
        pixel_record_def corrupted_record_def USB_FRAME_START_def USB_PIXEL_START_def
        USB_PIXEL_END_def)
  have take8: "take (4 + 4 * length ?pre) ?evs =
      [(Some 0xA5, 0), (Some 0x01, 0), (Some 0x00, 0), (Some 0x5A, 0),
       (Some 0xA5, 0), (Some 0xA5, 0), (Some 0xA5, 0), (Some 0xA5, 0)]"
    "take (4 + 4 * length ?pre) ?evs2 =
      [(Some 0xA5, 0), (Some 0x01, 0), (Some 0x00, 0), (Some 0x5A, 0),
       (Some 0x00, 0), (Some 0xA5, 0), (Some 0x02, 0), (Some 0x5A, 0)]"
    by simp_all
  have win: "window_after_corrupted ?r 3 0xA5 = [0xA5, 0xA5, 0xA5]"
    "window_after_corrupted ?r2 0 0 = [0xA5, 0x02, 0x5A]"
    by (simp_all add: window_after_corrupted_def USB_PIXEL_START_def USB_PIXEL_END_def)
  have vals: "take CCD_PIXEL_COUNT (?pre @ ?post) = ?pre @ ?post"
    "min (length (?pre @ ?post)) CCD_PIXEL_COUNT = 2"
    "min (length ?pre) CCD_PIXEL_COUNT = 1"
    by (simp_all add: CCD_PIXEL_COUNT_def)
  from usb_corrupted_record_skipped [OF h, of 0]
  obtain l1 g1 l' g' where
    "usb_run (take (4 + 4 * length ?pre) ?evs) ?s0 = Some (l1, g1)"
    and "buffer l1 = window_after_corrupted ?r 3 0xA5"
    and "pixel_index l1 = min (length ?pre) CCD_PIXEL_COUNT"
    and "packets_received g1 = packets_received AppState_init"
    and "usb_run ?evs ?s0 = Some (l', g')"
    and "packets_received g' =
           (if ?pre @ ?post = [] then packets_received AppState_init
            else packets_received AppState_init + 1)"
    and "console_log g' =
           (if ?pre @ ?post = [] then console_log AppState_init
            else log_push (console_log AppState_init)
                   (Log_frame_complete (min (length (?pre @ ?post)) CCD_PIXEL_COUNT)))"
    and "spectrum_data g' = map sample_of (take CCD_PIXEL_COUNT (?pre @ ?post))
           @ drop (min (length (?pre @ ?post)) CCD_PIXEL_COUNT) (spectrum_data AppState_init)"
    unfolding first by auto
  then have end_byte:
    "\<exists>l1 g1. usb_run (take (4 + 4 * length ?pre) ?evs) ?s0 = Some (l1, g1) \<and>
       buffer l1 = [0xA5, 0xA5, 0xA5] \<and> pixel_index l1 = 1 \<and> packets_received g1 = 0"
    "\<exists>l' g'. usb_run ?evs ?s0 = Some (l', g') \<and> packets_received g' = 1 \<and>
       console_log g' = [Log_frame_complete 2] \<and>
       spectrum_data g' = 1 # 3 # drop 2 (replicate CCD_PIXEL_COUNT 0)"
    unfolding win vals
    by (auto simp: AppState_init_def sample_of_def log_push_def MAX_LOG_LINES_def
        simp del: usb_run.simps)
  from usb_corrupted_record_skipped [OF h(1) h2, of 0]
  obtain l1 g1 l' g' where
    "usb_run (take (4 + 4 * length ?pre) ?evs2) ?s0 = Some (l1, g1)"
    and "buffer l1 = window_after_corrupted ?r2 0 0"
    and "pixel_index l1 = min (length ?pre) CCD_PIXEL_COUNT"
    and "packets_received g1 = packets_received AppState_init"
    and "usb_run ?evs2 ?s0 = Some (l', g')"
    and "packets_received g' =
           (if ?pre @ ?post = [] then packets_received AppState_init
            else packets_received AppState_init + 1)"
    and "console_log g' =
           (if ?pre @ ?post = [] then console_log AppState_init
            else log_push (console_log AppState_init)
                   (Log_frame_complete (min (length (?pre @ ?post)) CCD_PIXEL_COUNT)))"
    and "spectrum_data g' = map sample_of (take CCD_PIXEL_COUNT (?pre @ ?post))
           @ drop (min (length (?pre @ ?post)) CCD_PIXEL_COUNT) (spectrum_data AppState_init)"
    unfolding first by auto
  then have start_byte:
    "\<exists>l1 g1. usb_run (take (4 + 4 * length ?pre) ?evs2) ?s0 = Some (l1, g1) \<and>
       buffer l1 = [0xA5, 0x02, 0x5A] \<and> pixel_index l1 = 1 \<and> packets_received g1 = 0"
    "\<exists>l' g'. usb_run ?evs2 ?s0 = Some (l', g') \<and> packets_received g' = 1 \<and>
       console_log g' = [Log_frame_complete 2] \<and>
       spectrum_data g' = 1 # 3 # drop 2 (replicate CCD_PIXEL_COUNT 0)"
    unfolding win vals
    by (auto simp: AppState_init_def sample_of_def log_push_def MAX_LOG_LINES_def
        simp del: usb_run.simps)
  show ?thesis
    using first0 end_byte start_byte unfolding take8 by blast
qed

end
